theory Spec2Isabelle
  imports Complex_Main "HOL-Library.AList"
begin

section \<open>Data model of \<open>detect_engine.py\<close>\<close>

text \<open>
  The detection engine is a Python class \<open>SecureWatchDetector\<close>. Python floats
  (confidences, wall-clock times of \<open>time.time()\<close>) are modelled as reals, Python
  integers that only count upwards from zero as naturals, frames (numpy arrays) as opaque
  image identifiers. A detection is the dictionary built by \<open>_detect_frame\<close>.
\<close>

type_synonym image = nat

record detection =
  det_class :: string
  det_confidence :: real
  det_bbox :: "real list"
  det_class_id :: nat

text \<open>The per-frame dictionary \<open>{'label', 'confidence', 'bbox'}\<close> stored in an episode.\<close>

record frame_detection =
  fd_label :: string
  fd_confidence :: real
  fd_bbox :: "real list"

text \<open>The dictionary appended to \<open>active_frames\<close>.\<close>

record frame_record =
  fr_seq :: nat
  fr_image :: image
  fr_detections :: "frame_detection list"
  fr_timestamp :: real
  fr_frame_number :: nat

text \<open>
  \<open>detections_summary\<close> is a Python dict from class name to count; an association list
  keeps its insertion order.
\<close>

type_synonym summary = "(string \<times> int) list"

text \<open>
  One processed frame as the loop body sees it: the frame, what \<open>_detect_frame\<close>
  returned for it and the value of \<open>time.time()\<close> read as \<open>current_time\<close>.
\<close>

record frame_in =
  fi_image :: image
  fi_detections :: "detection list"
  fi_time :: real

text \<open>
  What the loop body hands to its collaborators, in call order. \<open>Emit_detection\<close>
  stands for building the per-frame payload, printing it and \<open>_post_detection\<close>;
  \<open>Telegram_alert\<close> for the call of \<open>_send_telegram_alert\<close>; \<open>Send_episode\<close> for
  the call of \<open>_send_episode(active_frames, detections_summary)\<close>. None of the three
  results is read by the loop, and \<open>_send_episode\<close> catches every exception.
\<close>

datatype call =
    Emit_detection nat image "detection list"
  | Telegram_alert image "detection list"
  | Send_episode "frame_record list" summary

text \<open>The local variables of \<open>_process_stream\<close> and of \<open>_http_polling_session\<close>.\<close>

record session =
  active_frames :: "frame_record list"
  detections_summary :: summary
  silence_counter :: nat
  episode_start_time :: "real option"
  episode_count :: nat
  consecutive_failures :: nat

definition init_session :: session where
  "init_session = \<lparr> active_frames = [], detections_summary = [], silence_counter = 0,
     episode_start_time = None, episode_count = 0, consecutive_failures = 0 \<rparr>"

section \<open>Episode segmentation\<close>

definition summary_get :: "summary \<Rightarrow> string \<Rightarrow> int" where
  "summary_get m k = (case map_of m k of None \<Rightarrow> 0 | Some c \<Rightarrow> c)"

text \<open>The \<open>for det in detections\<close> loop: the per-frame list and the summary counts.\<close>

definition to_frame_detection :: "detection \<Rightarrow> frame_detection" where
  "to_frame_detection d =
     \<lparr> fd_label = det_class d, fd_confidence = det_confidence d, fd_bbox = det_bbox d \<rparr>"

fun tally :: "detection list \<Rightarrow> summary \<Rightarrow> summary" where
  "tally [] m = m"
| "tally (d # ds) m = tally ds (AList.update (det_class d) (summary_get m (det_class d) + 1) m)"

definition mk_record :: "nat \<Rightarrow> nat \<Rightarrow> frame_in \<Rightarrow> frame_record" where
  "mk_record n fc f =
     \<lparr> fr_seq = n, fr_image = fi_image f,
       fr_detections = map to_frame_detection (fi_detections f),
       fr_timestamp = fi_time f, fr_frame_number = fc \<rparr>"

text \<open>
  The branch \<open>if has_detections:\<close> of the loop body, with the two thresholds of the
  enclosing function as parameters (\<open>_process_stream\<close>: 15 and 300,
  \<open>_http_polling_session\<close>: 6 and 120). \<open>fc\<close> is \<open>self.frame_count\<close>.
\<close>

definition on_activity :: "nat \<Rightarrow> nat \<Rightarrow> frame_in \<Rightarrow> session \<Rightarrow> session \<times> call list" where
  "on_activity max_frames fc f s =
     (let start = (case episode_start_time s of None \<Rightarrow> Some (fi_time f) | Some t \<Rightarrow> Some t);
          emitted = [Emit_detection fc (fi_image f) (fi_detections f),
                     Telegram_alert (fi_image f) (fi_detections f)];
          summ = tally (fi_detections f) (detections_summary s);
          frames = active_frames s @ [mk_record (length (active_frames s)) fc f]
      in if length frames \<ge> max_frames
         then (s\<lparr> active_frames := [], detections_summary := [], silence_counter := 0,
                  episode_start_time := Some (fi_time f),
                  episode_count := episode_count s + 1 \<rparr>,
               emitted @ [Send_episode frames summ])
         else (s\<lparr> active_frames := frames, detections_summary := summ, silence_counter := 0,
                  episode_start_time := start \<rparr>,
               emitted))"

text \<open>The \<open>else:\<close> branch: no detections in this frame.\<close>

definition on_silence :: "nat \<Rightarrow> session \<Rightarrow> session \<times> call list" where
  "on_silence silence_threshold s =
     (let n = silence_counter s + 1
      in if n \<ge> silence_threshold \<and> active_frames s \<noteq> []
         then (s\<lparr> active_frames := [], detections_summary := [], silence_counter := 0,
                  episode_start_time := None, episode_count := episode_count s + 1 \<rparr>,
               [Send_episode (active_frames s) (detections_summary s)])
         else (s\<lparr> silence_counter := n \<rparr>, []))"

definition segment_frame ::
  "nat \<Rightarrow> nat \<Rightarrow> nat \<Rightarrow> frame_in \<Rightarrow> session \<Rightarrow> session \<times> call list" where
  "segment_frame silence_threshold max_frames fc f s =
     (if length (fi_detections f) > 0 then on_activity max_frames fc f s
      else on_silence silence_threshold s)"

text \<open>
  The loop body over a sequence of processed frames (each with the frame count it was read
  at); the result keeps the calls of every frame apart, so that the frame at which an
  episode is sent can be read off.
\<close>

fun segment_run ::
  "nat \<Rightarrow> nat \<Rightarrow> (nat \<times> frame_in) list \<Rightarrow> session \<Rightarrow> session \<times> call list list" where
  "segment_run st mf [] s = (s, [])"
| "segment_run st mf ((fc, f) # fs) s =
     (let (s1, cs) = segment_frame st mf fc f s;
          (s2, tr) = segment_run st mf fs s1
      in (s2, cs # tr))"

text \<open>The episodes sent among a list of calls.\<close>

fun episodes_sent :: "call list \<Rightarrow> (frame_record list \<times> summary) list" where
  "episodes_sent [] = []"
| "episodes_sent (Send_episode fr sm # cs) = (fr, sm) # episodes_sent cs"
| "episodes_sent (_ # cs) = episodes_sent cs"

text \<open>The constants of the two streaming functions.\<close>

definition LIVE_SILENCE_THRESHOLD :: nat where "LIVE_SILENCE_THRESHOLD = 15"
definition LIVE_MAX_EPISODE_FRAMES :: nat where "LIVE_MAX_EPISODE_FRAMES = 300"
definition LIVE_MAX_FAILURES :: nat where "LIVE_MAX_FAILURES = 30"
definition LIVE_FRAME_SKIP :: nat where "LIVE_FRAME_SKIP = 3"
definition HTTP_SILENCE_THRESHOLD :: nat where "HTTP_SILENCE_THRESHOLD = 6"
definition HTTP_MAX_EPISODE_FRAMES :: nat where "HTTP_MAX_EPISODE_FRAMES = 120"
definition HTTP_MAX_FAILURES :: nat where "HTTP_MAX_FAILURES = 20"

definition live_frame :: "nat \<Rightarrow> frame_in \<Rightarrow> session \<Rightarrow> session \<times> call list" where
  "live_frame = segment_frame LIVE_SILENCE_THRESHOLD LIVE_MAX_EPISODE_FRAMES"

definition http_frame :: "nat \<Rightarrow> frame_in \<Rightarrow> session \<Rightarrow> session \<times> call list" where
  "http_frame = segment_frame HTTP_SILENCE_THRESHOLD HTTP_MAX_EPISODE_FRAMES"

section \<open>The streaming loops\<close>

datatype error =
    Too_many_read_failures
  | Too_many_poll_failures nat
  | File_loop_failed
  | Unknown_mode string
  | Argument_error string

text \<open>
  One iteration of \<open>while self.running and consecutive_failures < max_failures\<close> in
  \<open>_process_stream\<close> consumes one result of \<open>self.cap.read()\<close>. The input list
  ends where \<open>self.running\<close> has become false. Detection and the per-frame emission
  are taken to return: the loop body of this function has no handler of its own.
\<close>

datatype read = Read_failed | Read_ok frame_in

fun live_loop :: "read list \<Rightarrow> nat \<Rightarrow> session \<Rightarrow> nat \<times> session \<times> call list" where
  "live_loop [] fc s = (fc, s, [])"
| "live_loop (r # rs) fc s =
     (if consecutive_failures s < LIVE_MAX_FAILURES then
        (case r of
           Read_failed \<Rightarrow>
             live_loop rs fc (s\<lparr> consecutive_failures := consecutive_failures s + 1 \<rparr>)
         | Read_ok f \<Rightarrow>
             (let s0 = s\<lparr> consecutive_failures := 0 \<rparr>; fc1 = fc + 1
              in if fc1 mod LIVE_FRAME_SKIP \<noteq> 0 then live_loop rs fc1 s0
                 else (let (s1, cs) = live_frame fc1 f s0;
                           (fc2, s2, cs2) = live_loop rs fc1 s1
                       in (fc2, s2, cs @ cs2))))
      else (fc, s, []))"

text \<open>The \<open>if active_frames: self._send_episode(...)\<close> that appears after the loops.\<close>

definition send_pending :: "session \<Rightarrow> call list" where
  "send_pending s =
     (if active_frames s \<noteq> [] then [Send_episode (active_frames s) (detections_summary s)]
      else [])"

text \<open>
  \<open>_process_stream\<close>: the loop, the block under \<open># Handle stream disconnect\<close>, which
  sends the pending episode and raises, and the \<open>finally\<close> block, which runs on both
  exits with the same local variables. The result is \<open>self.frame_count\<close>, the calls made
  and how the function left.
\<close>

definition process_stream :: "read list \<Rightarrow> nat \<Rightarrow> nat \<times> call list \<times> (error + unit)" where
  "process_stream rs fc =
     (let (fc1, s, cs) = live_loop rs fc init_session
      in if consecutive_failures s \<ge> LIVE_MAX_FAILURES
         then (fc1, cs @ send_pending s @ send_pending s, Inl Too_many_read_failures)
         else (fc1, cs @ send_pending s, Inr ()))"

text \<open>
  One iteration of the loop of \<open>_http_polling_session\<close> consumes one poll: the snapshot
  fetch returned \<open>None\<close>; or it returned a frame that was processed to the end; or
  \<open>_detect_frame\<close> raised on the fetched frame; or, on a frame with detections, building,
  printing or posting the per-frame payload raised (\<open>Emit_raised\<close>), or
  \<open>_send_telegram_alert\<close> raised (\<open>Alert_raised\<close>), or \<open>frame.copy()\<close> raised
  when the record was being built (\<open>Copy_raised\<close>). The \<open>except Exception\<close> of the
  loop body swallows each of these exceptions and counts a failure. There is no frame
  skipping in this mode.
\<close>

datatype poll =
    Fetch_failed
  | Fetch_ok frame_in
  | Detect_raised
  | Emit_raised frame_in
  | Alert_raised frame_in
  | Copy_raised frame_in

text \<open>
  The statements of the branch \<open>if has_detections:\<close> that precede the per-frame emission:
  the silence counter is reset and an episode start time is recorded if there was none. An
  exception raised by the emission leaves the local variables in this state; one raised
  by \<open>frame.copy()\<close> comes after the summary counts of the frame have been added.
\<close>

definition activity_interrupted :: "frame_in \<Rightarrow> session \<Rightarrow> session" where
  "activity_interrupted f s =
     s\<lparr> silence_counter := 0,
        episode_start_time :=
          (case episode_start_time s of None \<Rightarrow> Some (fi_time f) | Some t \<Rightarrow> Some t) \<rparr>"

text \<open>
  The body of the loop, \<open>try\<close> and \<open>except\<close>. The emission can raise only where it is
  reached: a frame without detections is processed to the end whatever the poll says. The
  call that raised is recorded with the calls made before it.
\<close>

definition http_iteration :: "poll \<Rightarrow> nat \<Rightarrow> session \<Rightarrow> nat \<times> session \<times> call list" where
  "http_iteration p fc s =
     (case p of
        Fetch_failed \<Rightarrow> (fc, s\<lparr> consecutive_failures := consecutive_failures s + 1 \<rparr>, [])
      | Detect_raised \<Rightarrow> (fc + 1, s\<lparr> consecutive_failures := 0 + 1 \<rparr>, [])
      | Fetch_ok f \<Rightarrow>
          (let (s1, cs) = http_frame (fc + 1) f (s\<lparr> consecutive_failures := 0 \<rparr>)
           in (fc + 1, s1, cs))
      | Emit_raised f \<Rightarrow>
          (if length (fi_detections f) > 0
           then (fc + 1,
                 (activity_interrupted f (s\<lparr> consecutive_failures := 0 \<rparr>))
                   \<lparr> consecutive_failures := 0 + 1 \<rparr>,
                 [Emit_detection (fc + 1) (fi_image f) (fi_detections f)])
           else (let (s1, cs) = http_frame (fc + 1) f (s\<lparr> consecutive_failures := 0 \<rparr>)
                 in (fc + 1, s1, cs)))
      | Alert_raised f \<Rightarrow>
          (if length (fi_detections f) > 0
           then (fc + 1,
                 (activity_interrupted f (s\<lparr> consecutive_failures := 0 \<rparr>))
                   \<lparr> consecutive_failures := 0 + 1 \<rparr>,
                 [Emit_detection (fc + 1) (fi_image f) (fi_detections f),
                  Telegram_alert (fi_image f) (fi_detections f)])
           else (let (s1, cs) = http_frame (fc + 1) f (s\<lparr> consecutive_failures := 0 \<rparr>)
                 in (fc + 1, s1, cs)))
      | Copy_raised f \<Rightarrow>
          (if length (fi_detections f) > 0
           then (fc + 1,
                 (activity_interrupted f (s\<lparr> consecutive_failures := 0 \<rparr>))
                   \<lparr> detections_summary := tally (fi_detections f) (detections_summary s),
                     consecutive_failures := 0 + 1 \<rparr>,
                 [Emit_detection (fc + 1) (fi_image f) (fi_detections f),
                  Telegram_alert (fi_image f) (fi_detections f)])
           else (let (s1, cs) = http_frame (fc + 1) f (s\<lparr> consecutive_failures := 0 \<rparr>)
                 in (fc + 1, s1, cs))))"

fun http_loop :: "poll list \<Rightarrow> nat \<Rightarrow> session \<Rightarrow> nat \<times> session \<times> call list" where
  "http_loop [] fc s = (fc, s, [])"
| "http_loop (p # ps) fc s =
     (if consecutive_failures s < HTTP_MAX_FAILURES then
        (let (fc1, s1, cs) = http_iteration p fc s;
             (fc2, s2, cs2) = http_loop ps fc1 s1
         in (fc2, s2, cs @ cs2))
      else (fc, s, []))"

text \<open>
  \<open>_http_polling_session\<close>: here the block after the loop only raises, and the
  \<open>finally\<close> block alone sends the pending episode.
\<close>

definition http_polling_session :: "poll list \<Rightarrow> nat \<Rightarrow> nat \<times> call list \<times> (error + unit)" where
  "http_polling_session ps fc =
     (let (fc1, s, cs) = http_loop ps fc init_session
      in if consecutive_failures s \<ge> HTTP_MAX_FAILURES
         then (fc1, cs @ send_pending s, Inl (Too_many_poll_failures (consecutive_failures s)))
         else (fc1, cs @ send_pending s, Inr ()))"

section \<open>The alert gate\<close>

definition ALERT_COOLDOWN :: real where "ALERT_COOLDOWN = 30"
definition ALERT_CONFIDENCE_THRESHOLD :: real where "ALERT_CONFIDENCE_THRESHOLD = 7 / 10"

text \<open>\<open>str.lower()\<close> on ASCII text (the class names of the model).\<close>

definition lower_char :: "char \<Rightarrow> char" where
  "lower_char c =
     (let n = (of_char c :: nat) in if 65 \<le> n \<and> n \<le> 90 then char_of (n + 32) else c)"

definition lower :: "string \<Rightarrow> string" where "lower = map lower_char"

text \<open>The arguments of one call \<open>send_alert(alert_path, caption, confidence)\<close>.\<close>

record alert =
  alert_camera :: string
  alert_time :: real
  alert_confidence :: real

text \<open>
  The \<open>for det in detections\<close> loop of \<open>_send_telegram_alert\<close>. \<open>send\<close> tells whether
  \<open>send_alert\<close> returns (\<open>True\<close>) or raises (\<open>False\<close>); the result is the new
  \<open>self.last_alert_time\<close> and the calls of \<open>send_alert\<close> made, each with its outcome.
\<close>

definition mk_alert :: "string \<Rightarrow> real \<Rightarrow> detection \<Rightarrow> alert" where
  "mk_alert cam now d =
     \<lparr> alert_camera = cam, alert_time = now, alert_confidence = det_confidence d \<rparr>"

fun alert_scan ::
  "(alert \<Rightarrow> bool) \<Rightarrow> string \<Rightarrow> real \<Rightarrow> detection list \<Rightarrow> real \<Rightarrow> real \<times> (alert \<times> bool) list" where
  "alert_scan send cam now [] prev = (prev, [])"
| "alert_scan send cam now (d # ds) prev =
     (if lower (det_class d) = ''person'' \<and> det_confidence d \<ge> ALERT_CONFIDENCE_THRESHOLD
      then (if send (mk_alert cam now d) then (now, [(mk_alert cam now d, True)])
            else (prev, [(mk_alert cam now d, False)]))
      else alert_scan send cam now ds prev)"

text \<open>
  \<open>_send_telegram_alert\<close>; \<open>enabled\<close> is the module constant \<open>TELEGRAM_ENABLED\<close>,
  \<open>now\<close> the value of \<open>time.time()\<close>, \<open>prev\<close> the field \<open>self.last_alert_time\<close>
  (zero in a new detector). Writing the annotated frame to the alert directory, which
  precedes the \<open>try\<close>, is taken to succeed.
\<close>

definition send_telegram_alert ::
  "bool \<Rightarrow> (alert \<Rightarrow> bool) \<Rightarrow> string \<Rightarrow> real \<Rightarrow> detection list \<Rightarrow> real
     \<Rightarrow> real \<times> (alert \<times> bool) list" where
  "send_telegram_alert enabled send cam now dets prev =
     (if \<not> enabled then (prev, [])
      else if now - prev < ALERT_COOLDOWN then (prev, [])
      else alert_scan send cam now dets prev)"

definition qualifies :: "detection \<Rightarrow> bool" where
  "qualifies d \<longleftrightarrow> lower (det_class d) = ''person'' \<and> det_confidence d \<ge> ALERT_CONFIDENCE_THRESHOLD"

text \<open>The notifications that went out: the calls of \<open>send_alert\<close> that returned.\<close>

definition fired :: "(alert \<times> bool) list \<Rightarrow> alert list" where
  "fired calls = map fst (filter snd calls)"

section \<open>Delivery\<close>

text \<open>
  The exceptions that the two transports can raise, as far as the handlers tell them apart:
  \<open>redis.RedisError\<close>; \<open>requests.Timeout\<close> and \<open>requests.ConnectionError\<close>,
  both subclasses of \<open>requests.RequestException\<close>; anything else.
\<close>

datatype exn = Redis_error | Request_timeout | Request_connection_error
  | Request_exception | Other_exception

definition is_request_exception :: "exn \<Rightarrow> bool" where
  "is_request_exception e \<longleftrightarrow>
     e = Request_timeout \<or> e = Request_connection_error \<or> e = Request_exception"

text \<open>
  What one delivery meets: the fields of the detector it reads and, for each transport call
  it may make, whether the call returns or raises. Serialising the payload is taken to
  succeed.
\<close>

record transport =
  redis_client :: bool
  endpoint :: "string option"
  mode :: string
  lpush_raises :: "exn option"
  publish_raises :: "exn option"
  post_result :: "exn + nat"

text \<open>Python's truth value of \<open>self.endpoint\<close>: \<open>None\<close> and the empty string are false.\<close>

definition endpoint_set :: "transport \<Rightarrow> bool" where
  "endpoint_set t = (case endpoint t of None \<Rightarrow> False | Some u \<Rightarrow> u \<noteq> [])"

datatype 'p effect =
    Lpush string 'p
  | Publish string 'p
  | Http_post 'p
  | Log string

text \<open>
  The two statements \<open>lpush('detection_queue', json_data)\<close> and
  \<open>publish('live_events', json_data)\<close> inside the \<open>try\<close>: the effects attempted and
  the exception that left the block, if any.
\<close>

definition redis_send :: "transport \<Rightarrow> 'p \<Rightarrow> 'p effect list \<times> exn option" where
  "redis_send t data =
     (case lpush_raises t of
        Some e \<Rightarrow> ([Lpush ''detection_queue'' data], Some e)
      | None \<Rightarrow>
          (case publish_raises t of
             Some e \<Rightarrow> ([Lpush ''detection_queue'' data, Publish ''live_events'' data], Some e)
           | None \<Rightarrow> ([Lpush ''detection_queue'' data, Publish ''live_events'' data], None)))"

text \<open>The part of \<open>_post_detection\<close> below \<open># HTTP fallback\<close>.\<close>

definition post_detection_http :: "transport \<Rightarrow> 'p \<Rightarrow> 'p effect list \<times> exn option" where
  "post_detection_http t data =
     (if \<not> endpoint_set t then ([], None)
      else (case post_result t of
              Inr status \<Rightarrow>
                (if status \<noteq> 200 then ([Http_post data, Log ''POST failed''], None)
                 else ([Http_post data], None))
            | Inl e \<Rightarrow>
                (if is_request_exception e
                 then (if mode t = ''UPLOAD'' then ([Http_post data, Log ''POST error''], None)
                       else ([Http_post data], None))
                 else ([Http_post data], Some e))))"

text \<open>
  \<open>_post_detection\<close>: the effects and the exception that escapes, if any (only
  \<open>redis.RedisError\<close> and \<open>requests.RequestException\<close> are handled).
\<close>

definition post_detection :: "transport \<Rightarrow> 'p \<Rightarrow> 'p effect list \<times> exn option" where
  "post_detection t data =
     (if redis_client t then
        (case redis_send t data of
           (es, None) \<Rightarrow> (es, None)
         | (es, Some e) \<Rightarrow>
             (if e = Redis_error
              then (let (es2, r) = post_detection_http t data
                    in (es @ [Log ''Redis error''] @ es2, r))
              else (es, Some e)))
      else post_detection_http t data)"

text \<open>The part of \<open>_send_episode\<close> below \<open># HTTP fallback\<close>, under the outer handlers.\<close>

definition send_episode_http :: "transport \<Rightarrow> 'p \<Rightarrow> 'p effect list \<times> bool" where
  "send_episode_http t payload =
     (if \<not> endpoint_set t then ([Log ''No endpoint configured, skipping episode send''], False)
      else (case post_result t of
              Inr status \<Rightarrow>
                (if status = 200 then ([Http_post payload, Log ''Episode sent successfully''], True)
                 else ([Http_post payload, Log ''Episode send failed''], False))
            | Inl e \<Rightarrow>
                (if e = Request_timeout
                 then ([Http_post payload, Log ''Episode send timed out''], False)
                 else if e = Request_connection_error
                 then ([Http_post payload, Log ''Episode send connection error''], False)
                 else if is_request_exception e
                 then ([Http_post payload, Log ''Episode send error''], False)
                 else ([Http_post payload, Log ''Unexpected error sending episode''], False))))"

text \<open>\<open>_send_episode\<close>: the effects and the boolean it returns; it never raises.\<close>

definition send_episode :: "transport \<Rightarrow> 'p \<Rightarrow> 'p effect list \<times> bool" where
  "send_episode t payload =
     (if redis_client t then
        (case redis_send t payload of
           (es, None) \<Rightarrow> (es @ [Log ''Episode sent via Redis''], True)
         | (es, Some e) \<Rightarrow>
             (if e = Redis_error
              then (let (es2, r) = send_episode_http t payload
                    in (es @ [Log ''Redis error, trying HTTP fallback''] @ es2, r))
              else if e = Request_timeout
              then (es @ [Log ''Episode send timed out''], False)
              else if e = Request_connection_error
              then (es @ [Log ''Episode send connection error''], False)
              else if is_request_exception e
              then (es @ [Log ''Episode send error''], False)
              else (es @ [Log ''Unexpected error sending episode''], False)))
      else send_episode_http t payload)"

text \<open>How often a delivery touched the queue, the topic and the fallback endpoint.\<close>

definition is_lpush :: "'p effect \<Rightarrow> bool" where
  "is_lpush e = (case e of Lpush _ _ \<Rightarrow> True | _ \<Rightarrow> False)"

definition is_publish :: "'p effect \<Rightarrow> bool" where
  "is_publish e = (case e of Publish _ _ \<Rightarrow> True | _ \<Rightarrow> False)"

definition is_http_post :: "'p effect \<Rightarrow> bool" where
  "is_http_post e = (case e of Http_post _ \<Rightarrow> True | _ \<Rightarrow> False)"

definition is_log :: "'p effect \<Rightarrow> bool" where
  "is_log e = (case e of Log _ \<Rightarrow> True | _ \<Rightarrow> False)"

section \<open>Start-up\<close>

text \<open>
  What the constructor and \<open>start\<close> acquire or launch, in order. The constructor stores
  \<open>mode.upper()\<close>; \<open>str.upper\<close> is a function of the Python library and a parameter
  here (\<open>str_upper\<close>). It connects to Redis when a host is given and the \<open>redis\<close>
  module could be imported (\<open>ping_ok\<close>: the test \<open>ping()\<close> returned; a
  \<open>redis.ConnectionError\<close> leaves \<open>self.redis_client = None\<close>), registers the signal
  handlers and loads the model. The test \<open>ping()\<close> is taken to raise nothing but
  \<open>redis.ConnectionError\<close>, and the model file to load: otherwise the constructor
  itself raises and no detector exists to be started.
\<close>

datatype startup_step =
    Redis_connected
  | Redis_connect_failed
  | Signal_handlers_registered
  | Model_loaded
  | Heartbeat_thread_started
  | File_loop_run
  | Stream_loop_run
  | Http_loop_run
  | Cleanup_done

record detector =
  d_mode :: string
  d_redis_client :: bool


text \<open>\<open>_start_heartbeat_thread\<close>: no thread without a Redis client.\<close>

definition start_heartbeat_thread :: "detector \<Rightarrow> startup_step list" where
  "start_heartbeat_thread d = (if \<not> d_redis_client d then [] else [Heartbeat_thread_started])"

text \<open>
  \<open>start\<close>: the heartbeat thread first, then the dispatch on \<open>self.mode\<close> inside
  \<open>try\<close>, with \<open>_cleanup\<close> in \<open>finally\<close>. The three loops are the ones modelled
  above; here only the fact that one was entered is recorded, and for the file loop whether
  it returned (\<open>file_loop_returns\<close>): \<open>_run_file_loop\<close> has no handler, so the
  \<open>RuntimeError\<close> of a video that cannot be opened, like any exception of its body,
  passes through \<open>start\<close> after \<open>_cleanup\<close>. The stream loop and the polling loop
  handle the exceptions of their sessions themselves.
\<close>

definition start :: "detector \<Rightarrow> bool \<Rightarrow> startup_step list \<times> (error + unit)" where
  "start d file_loop_returns =
     (let hb = start_heartbeat_thread d
      in if d_mode d = ''UPLOAD''
         then (hb @ [File_loop_run, Cleanup_done],
               if file_loop_returns then Inr () else Inl File_loop_failed)
         else if d_mode d = ''LIVE'' then (hb @ [Stream_loop_run, Cleanup_done], Inr ())
         else if d_mode d = ''HTTP'' then (hb @ [Http_loop_run, Cleanup_done], Inr ())
         else (hb @ [Cleanup_done], Inl (Unknown_mode (d_mode d))))"




section \<open>Vocabulary of the properties\<close>

text \<open>
  The records that a run of activity frames appends to an episode already holding \<open>n\<close>
  records (the sequence number is the length of \<open>active_frames\<close> at the append), and the
  summary counts of those frames.
\<close>

fun records_from :: "nat \<Rightarrow> (nat \<times> frame_in) list \<Rightarrow> frame_record list" where
  "records_from n [] = []"
| "records_from n ((fc, f) # fs) = mk_record n fc f # records_from (Suc n) fs"

fun tally_all :: "(nat \<times> frame_in) list \<Rightarrow> summary \<Rightarrow> summary" where
  "tally_all [] m = m"
| "tally_all ((fc, f) # fs) m = tally_all fs (tally (fi_detections f) m)"

definition has_activity :: "nat \<times> frame_in \<Rightarrow> bool" where
  "has_activity p \<longleftrightarrow> fi_detections (snd p) \<noteq> []"

text \<open>
  The frames of a polling session numbered by \<open>self.frame_count\<close>, which is \<open>fc\<close>
  before the first of them is fetched.
\<close>

fun number_from :: "nat \<Rightarrow> frame_in list \<Rightarrow> (nat \<times> frame_in) list" where
  "number_from fc [] = []"
| "number_from fc (f # fs) = (fc + 1, f) # number_from (fc + 1) fs"

text \<open>
  A delivery reaches the code below \<open># HTTP fallback\<close>: there is no Redis client, or the
  push raised \<open>redis.RedisError\<close>, or the push returned and the publish raised it.
\<close>

definition fallback_reached :: "transport \<Rightarrow> bool" where
  "fallback_reached t \<longleftrightarrow>
     (if redis_client t
      then lpush_raises t = Some Redis_error
         \<or> (lpush_raises t = None \<and> publish_raises t = Some Redis_error)
      else True)"

text \<open>
  The state in which a live session, or a polling session, stands after the given reads or
  polls, and the value of \<open>self.frame_count\<close> then; \<open>fc\<close> is the frame count at which
  the session begins.
\<close>

definition live_state :: "read list \<Rightarrow> nat \<Rightarrow> session" where
  "live_state rs fc = fst (snd (live_loop rs fc init_session))"

definition live_count :: "read list \<Rightarrow> nat \<Rightarrow> nat" where
  "live_count rs fc = fst (live_loop rs fc init_session)"

definition http_state :: "poll list \<Rightarrow> nat \<Rightarrow> session" where
  "http_state ps fc = fst (snd (http_loop ps fc init_session))"

definition http_count :: "poll list \<Rightarrow> nat \<Rightarrow> nat" where
  "http_count ps fc = fst (http_loop ps fc init_session)"

text \<open>An episode start time is recorded and no record is held.\<close>

definition empty_open :: "session \<Rightarrow> bool" where
  "empty_open s \<longleftrightarrow> episode_start_time s \<noteq> None \<and> active_frames s = []"

text \<open>
  The calls of one iteration show a flush at the cap: the frame carried detections and
  exactly one episode was sent, holding at least \<open>max_frames\<close> records.
\<close>

definition cap_flush :: "nat \<Rightarrow> frame_in \<Rightarrow> call list \<Rightarrow> bool" where
  "cap_flush max_frames f cs \<longleftrightarrow>
     fi_detections f \<noteq> [] \<and>
     (case episodes_sent cs of [(fr, sm)] \<Rightarrow> max_frames \<le> length fr | _ \<Rightarrow> False)"

text \<open>
  The iteration that consumes \<open>r\<close> after the reads \<open>pre\<close> flushes at the cap. For a
  polling session the iteration that consumes \<open>p\<close> after the polls \<open>pre\<close> either does
  the same, or it is an iteration that the loop ran on a frame with detections while no
  episode was open and in which a statement between the setting of the start time and the
  append raised.
\<close>

definition live_cause :: "read list \<Rightarrow> read \<Rightarrow> nat \<Rightarrow> bool" where
  "live_cause pre r fc =
     (case r of
        Read_failed \<Rightarrow> False
      | Read_ok f \<Rightarrow>
          cap_flush LIVE_MAX_EPISODE_FRAMES f
            (snd (snd (live_loop [r] (live_count pre fc) (live_state pre fc)))))"

definition raised_on_opening :: "poll list \<Rightarrow> frame_in \<Rightarrow> nat \<Rightarrow> bool" where
  "raised_on_opening pre f fc \<longleftrightarrow>
     fi_detections f \<noteq> [] \<and>
     consecutive_failures (http_state pre fc) < HTTP_MAX_FAILURES \<and>
     episode_start_time (http_state pre fc) = None"

definition http_cause :: "poll list \<Rightarrow> poll \<Rightarrow> nat \<Rightarrow> bool" where
  "http_cause pre p fc =
     (case p of
        Fetch_failed \<Rightarrow> False
      | Detect_raised \<Rightarrow> False
      | Fetch_ok f \<Rightarrow>
          cap_flush HTTP_MAX_EPISODE_FRAMES f
            (snd (snd (http_loop [p] (http_count pre fc) (http_state pre fc))))
      | Emit_raised f \<Rightarrow> raised_on_opening pre f fc
      | Alert_raised f \<Rightarrow> raised_on_opening pre f fc
      | Copy_raised f \<Rightarrow> raised_on_opening pre f fc)"

section \<open>Sample inputs\<close>



definition person_detection :: detection where
  "person_detection = \<lparr> det_class = ''person'', det_confidence = 9 / 10,
     det_bbox = [10, 20, 110, 220], det_class_id = 0 \<rparr>"

definition sample_frame :: "nat \<Rightarrow> bool \<Rightarrow> frame_in" where
  "sample_frame i active = \<lparr> fi_image = i,
       fi_detections = (if active then [person_detection] else []), fi_time = 1000 + real i \<rparr>"

text \<open>
  Processed frames of a live stream: with \<open>LIVE_FRAME_SKIP = 3\<close> the \<open>i\<close>-th of them is
  read at frame count \<open>3 * (i + 1)\<close>.
\<close>

definition five_then_quiet :: "(nat \<times> frame_in) list" where
  "five_then_quiet = map (\<lambda>i. (3 * (i + 1), sample_frame i (i < 5))) [0..<20]"

definition steady_activity :: "nat \<Rightarrow> (nat \<times> frame_in) list" where
  "steady_activity n = map (\<lambda>i. (3 * (i + 1), sample_frame i True)) [0..<n]"

text \<open>
  The reads of a live stream in which every frame of the list is read three times, so that
  with \<open>LIVE_FRAME_SKIP = 3\<close> and a frame count divisible by three each frame is
  processed once; and those processed frames with their frame counts.
\<close>

fun live_reads :: "frame_in list \<Rightarrow> read list" where
  "live_reads [] = []"
| "live_reads (f # fs) = Read_ok f # Read_ok f # Read_ok f # live_reads fs"

fun live_numbers :: "nat \<Rightarrow> frame_in list \<Rightarrow> (nat \<times> frame_in) list" where
  "live_numbers fc [] = []"
| "live_numbers fc (f # fs) = (fc + 3, f) # live_numbers (fc + 3) fs"

definition queue_up :: transport where
  "queue_up = \<lparr> redis_client = True, endpoint = Some ''http://localhost:4000/api/live/ingest'',
     mode = ''LIVE'', lpush_raises = None, publish_raises = None, post_result = Inr 200 \<rparr>"

definition queue_down :: transport where
  "queue_down = \<lparr> redis_client = True, endpoint = Some ''http://localhost:4000/api/live/ingest'',
     mode = ''LIVE'', lpush_raises = Some Redis_error, publish_raises = None,
     post_result = Inr 200 \<rparr>"

definition http_only :: transport where
  "http_only = \<lparr> redis_client = False, endpoint = Some ''http://localhost:4000/api/live/ingest'',
     mode = ''LIVE'', lpush_raises = None, publish_raises = None, post_result = Inr 200 \<rparr>"

definition http_created :: transport where
  "http_created = \<lparr> redis_client = False, endpoint = Some ''http://localhost:4000/api/live/ingest'',
     mode = ''LIVE'', lpush_raises = None, publish_raises = None, post_result = Inr 201 \<rparr>"

section \<open>Facts about the segmentation step\<close>

lemma segment_run_append:
  "segment_run st mf (xs @ ys) s =
     (let (s1, t1) = segment_run st mf xs s; (s2, t2) = segment_run st mf ys s1 in (s2, t1 @ t2))"
  by (induction xs arbitrary: s) (auto split: prod.splits)

lemma length_segment_run: "length (snd (segment_run st mf fs s)) = length fs"
  by (induction fs arbitrary: s) (auto simp: case_prod_beta Let_def)

lemma records_from_append:
  "records_from n (xs @ ys) = records_from n xs @ records_from (n + length xs) ys"
  by (induction xs arbitrary: n) auto

lemma length_records_from [simp]: "length (records_from n fs) = length fs"
  by (induction fs arbitrary: n) auto

lemma records_from_Nil_iff [simp]: "records_from n fs = [] \<longleftrightarrow> fs = []"
  by (cases fs) auto

lemma tally_all_append: "tally_all (xs @ ys) m = tally_all ys (tally_all xs m)"
  by (induction xs arbitrary: m) auto

lemma activity_run:
  assumes "\<forall>p \<in> set fs. has_activity p" "length (active_frames s) + length fs < mf"
  shows "segment_run st mf fs s =
     (s\<lparr> active_frames := active_frames s @ records_from (length (active_frames s)) fs,
         detections_summary := tally_all fs (detections_summary s),
         silence_counter := (if fs = [] then silence_counter s else 0),
         episode_start_time := (case episode_start_time s of
             None \<Rightarrow> (if fs = [] then None else Some (fi_time (snd (hd fs))))
           | Some t \<Rightarrow> Some t) \<rparr>,
      map (\<lambda>(fc, f). [Emit_detection fc (fi_image f) (fi_detections f),
                      Telegram_alert (fi_image f) (fi_detections f)]) fs)"
  using assms
proof (induction fs arbitrary: s)
  case Nil
  then show ?case by (simp split: option.splits)
next
  case (Cons p fs)
  obtain fc f where p: "p = (fc, f)" by (cases p)
  from Cons.prems have act: "fi_detections f \<noteq> []" by (simp add: p has_activity_def)
  let ?s1 = "s\<lparr> active_frames := active_frames s @ [mk_record (length (active_frames s)) fc f],
        detections_summary := tally (fi_detections f) (detections_summary s), silence_counter := 0,
        episode_start_time := (case episode_start_time s of None \<Rightarrow> Some (fi_time f) | Some t \<Rightarrow> Some t) \<rparr>"
  have step: "segment_frame st mf fc f s = (?s1, [Emit_detection fc (fi_image f) (fi_detections f),
                      Telegram_alert (fi_image f) (fi_detections f)])"
    using Cons.prems act by (simp add: segment_frame_def on_activity_def Let_def)
  have "segment_run st mf fs ?s1 = (?s1\<lparr> active_frames := active_frames ?s1 @ records_from (length (active_frames ?s1)) fs,
         detections_summary := tally_all fs (detections_summary ?s1),
         silence_counter := (if fs = [] then silence_counter ?s1 else 0),
         episode_start_time := (case episode_start_time ?s1 of
             None \<Rightarrow> (if fs = [] then None else Some (fi_time (snd (hd fs))))
           | Some t \<Rightarrow> Some t) \<rparr>,
      map (\<lambda>(fc, f). [Emit_detection fc (fi_image f) (fi_detections f),
                      Telegram_alert (fi_image f) (fi_detections f)]) fs)"
    using Cons.prems by (intro Cons.IH) auto
  then show ?case
    by (simp add: p step split: option.splits)
qed

lemma silence_run:
  assumes "\<forall>p \<in> set fs. \<not> has_activity p" "silence_counter s + length fs < st"
  shows "segment_run st mf fs s =
     (s\<lparr> silence_counter := silence_counter s + length fs \<rparr>, replicate (length fs) [])"
  using assms
proof (induction fs arbitrary: s)
  case Nil
  then show ?case by simp
next
  case (Cons p fs)
  obtain fc f where p: "p = (fc, f)" by (cases p)
  from Cons.prems have sil: "fi_detections f = []" by (simp add: p has_activity_def)
  have step: "segment_frame st mf fc f s = (s\<lparr> silence_counter := silence_counter s + 1 \<rparr>, [])"
    using Cons.prems sil by (simp add: segment_frame_def on_silence_def Let_def)
  have "segment_run st mf fs (s\<lparr> silence_counter := silence_counter s + 1 \<rparr>) =
     ((s\<lparr> silence_counter := silence_counter s + 1 \<rparr>)\<lparr> silence_counter := silence_counter (s\<lparr> silence_counter := silence_counter s + 1 \<rparr>) + length fs \<rparr>, replicate (length fs) [])"
    using Cons.prems by (intro Cons.IH) auto
  then show ?case by (simp add: p step)
qed

lemma silence_flush:
  assumes "\<not> has_activity (fc, f)" "silence_counter s + 1 \<ge> st" "active_frames s \<noteq> []"
  shows "segment_frame st mf fc f s =
     (s\<lparr> active_frames := [], detections_summary := [], silence_counter := 0,
         episode_start_time := None, episode_count := episode_count s + 1 \<rparr>,
      [Send_episode (active_frames s) (detections_summary s)])"
  using assms by (simp add: segment_frame_def on_silence_def Let_def has_activity_def)

lemma cap_flush:
  assumes "has_activity (fc, f)" "length (active_frames s) + 1 \<ge> mf"
  shows "segment_frame st mf fc f s =
     (s\<lparr> active_frames := [], detections_summary := [], silence_counter := 0,
         episode_start_time := Some (fi_time f), episode_count := episode_count s + 1 \<rparr>,
      [Emit_detection fc (fi_image f) (fi_detections f), Telegram_alert (fi_image f) (fi_detections f),
       Send_episode (active_frames s @ [mk_record (length (active_frames s)) fc f])
         (tally (fi_detections f) (detections_summary s))])"
  using assms by (simp add: segment_frame_def on_activity_def Let_def has_activity_def)

lemma episodes_sent_emitted [simp]:
  "episodes_sent [Emit_detection a b c, Telegram_alert d e] = []"
  by simp

lemma sample_frame_activity:
  "has_activity (n, sample_frame i True)" "\<not> has_activity (n, sample_frame i False)"
  by (simp_all add: has_activity_def sample_frame_def)

lemma steady_activity_facts:
  "length (steady_activity n) = n" "\<forall>p \<in> set (steady_activity n). has_activity p"
  by (auto simp: steady_activity_def sample_frame_activity)

section \<open>Closing an episode on silence\<close>

text \<open>
  Claim C3. In \<open>_process_stream\<close> (\<open>SILENCE_THRESHOLD = 15\<close>), take any twenty processed
  frames of which the first five (indices 0 to 4) carry detections and the other fifteen
  (indices 5 to 19) carry none. Starting from the state in which the function begins, no
  episode is sent while the frames of indices 0 to 18 are processed; the frame of index 19
  sends exactly one episode, made of the records of the frames 0 to 4 and their summary
  counts; after it no frames are held and no episode start time is recorded.
\<close>

theorem silence_closes_at_threshold:
  assumes len: "length fs = 20"
    and act: "\<forall>i<5. has_activity (fs ! i)"
    and sil: "\<forall>i. 5 \<le> i \<and> i < 20 \<longrightarrow> \<not> has_activity (fs ! i)"
  shows "case segment_run LIVE_SILENCE_THRESHOLD LIVE_MAX_EPISODE_FRAMES fs init_session of
     (s, tr) \<Rightarrow>
       length tr = 20 \<and>
       (\<forall>i<19. episodes_sent (tr ! i) = []) \<and>
       episodes_sent (tr ! 19) = [(records_from 0 (take 5 fs), tally_all (take 5 fs) [])] \<and>
       active_frames s = [] \<and> episode_start_time s = None \<and> episode_count s = 1"
proof -
  define A where "A = take 5 fs"
  define S where "S = take 14 (drop 5 fs)"
  define z where "z = fs ! 19"
  have fs: "fs = A @ S @ [z]"
  proof (rule nth_equalityI)
    show "length fs = length (A @ S @ [z])" using len by (simp add: A_def S_def)
  next
    fix i assume "i < length fs"
    then have i: "i < 20" using len by simp
    consider "i < 5" | "5 \<le> i" "i < 19" | "i = 19" using i by linarith
    then show "fs ! i = (A @ S @ [z]) ! i"
    proof cases
      case 1 then show ?thesis using len by (simp add: A_def nth_append)
    next
      case 2
      then have "i - 5 < 14" by arith
      then show ?thesis using 2 len by (simp add: A_def S_def nth_append)
    next
      case 3 then show ?thesis using len by (simp add: A_def S_def z_def nth_append)
    qed
  qed
  have lA: "length A = 5" and lS: "length S = 14" using len by (simp_all add: A_def S_def)
  have actA: "\<forall>p \<in> set A. has_activity p"
  proof
    fix p assume "p \<in> set A"
    then obtain i where "i < 5" "p = A ! i" using lA by (auto simp: in_set_conv_nth)
    then have "p = fs ! i" by (simp add: A_def)
    then show "has_activity p" using act \<open>i < 5\<close> by simp
  qed
  have silS: "\<forall>p \<in> set S. \<not> has_activity p"
  proof
    fix p assume "p \<in> set S"
    then obtain i where "i < 14" "p = S ! i" using lS by (auto simp: in_set_conv_nth)
    then have "p = fs ! (5 + i)" using len by (simp add: S_def)
    then show "\<not> has_activity p" using sil \<open>i < 14\<close> by simp
  qed
  have silz: "\<not> has_activity z" using sil by (simp add: z_def)
  have Ane: "A \<noteq> []" using lA by auto
  let ?s1 = "init_session\<lparr> active_frames := active_frames init_session @ records_from (length (active_frames init_session)) A,
         detections_summary := tally_all A (detections_summary init_session),
         silence_counter := (if A = [] then silence_counter init_session else 0),
         episode_start_time := (case episode_start_time init_session of
             None \<Rightarrow> (if A = [] then None else Some (fi_time (snd (hd A))))
           | Some t \<Rightarrow> Some t) \<rparr>"
  have r1: "segment_run LIVE_SILENCE_THRESHOLD LIVE_MAX_EPISODE_FRAMES A init_session =
      (?s1, map (\<lambda>(fc, f). [Emit_detection fc (fi_image f) (fi_detections f),
                      Telegram_alert (fi_image f) (fi_detections f)]) A)"
    by (rule activity_run[OF actA]) (simp add: init_session_def lA LIVE_MAX_EPISODE_FRAMES_def)
  have fr1: "active_frames ?s1 = records_from 0 A" and sm1: "detections_summary ?s1 = tally_all A []"
    and sc1: "silence_counter ?s1 = 0"
    using Ane by (simp_all add: init_session_def)
  have r2: "segment_run LIVE_SILENCE_THRESHOLD LIVE_MAX_EPISODE_FRAMES S ?s1 =
      (?s1\<lparr> silence_counter := silence_counter ?s1 + length S \<rparr>, replicate (length S) [])"
    by (rule silence_run[OF silS]) (simp add: sc1 lS LIVE_SILENCE_THRESHOLD_def)
  let ?s2 = "?s1\<lparr> silence_counter := silence_counter ?s1 + length S \<rparr>"
  obtain fc f where z: "z = (fc, f)" by (cases z)
  have r3: "segment_frame LIVE_SILENCE_THRESHOLD LIVE_MAX_EPISODE_FRAMES fc f ?s2 =
     (?s2\<lparr> active_frames := [], detections_summary := [], silence_counter := 0,
         episode_start_time := None, episode_count := episode_count ?s2 + 1 \<rparr>,
      [Send_episode (active_frames ?s2) (detections_summary ?s2)])"
    apply (rule silence_flush)
    using silz z Ane by (simp_all add: lS LIVE_SILENCE_THRESHOLD_def init_session_def)
  have run: "segment_run LIVE_SILENCE_THRESHOLD LIVE_MAX_EPISODE_FRAMES fs init_session =
     (?s2\<lparr> active_frames := [], detections_summary := [], silence_counter := 0,
         episode_start_time := None, episode_count := episode_count ?s2 + 1 \<rparr>,
      map (\<lambda>(fc, f). [Emit_detection fc (fi_image f) (fi_detections f),
                      Telegram_alert (fi_image f) (fi_detections f)]) A @ replicate (length S) []
       @ [[Send_episode (active_frames ?s2) (detections_summary ?s2)]])"
    apply (subst fs)
    apply (simp only: segment_run_append r1 r2 Let_def prod.case z segment_run.simps r3)
    done
  have tr: "\<forall>i<19. episodes_sent ((map (\<lambda>(fc, f). [Emit_detection fc (fi_image f) (fi_detections f),
                      Telegram_alert (fi_image f) (fi_detections f)]) A @ replicate (length S) []
       @ [[Send_episode (active_frames ?s2) (detections_summary ?s2)]]) ! i) = []"
  proof (intro allI impI)
    fix i :: nat assume "i < 19"
    then consider "i < 5" | "5 \<le> i" "i - 5 < 14" by linarith
    then show "episodes_sent ((map (\<lambda>(fc, f). [Emit_detection fc (fi_image f) (fi_detections f),
                      Telegram_alert (fi_image f) (fi_detections f)]) A @ replicate (length S) []
       @ [[Send_episode (active_frames ?s2) (detections_summary ?s2)]]) ! i) = []"
    proof cases
      case 1 then show ?thesis using lA by (simp add: nth_append case_prod_beta)
    next
      case 2 then show ?thesis using lA lS by (simp add: nth_append)
    qed
  qed
  show ?thesis
    unfolding run prod.case
    apply (intro conjI)
    subgoal using lA lS by simp
    subgoal using tr by simp
    subgoal using lA lS by (simp add: nth_append init_session_def A_def)
    subgoal by simp
    subgoal by simp
    subgoal by (simp add: init_session_def)
    done
qed

theorem silence_closes_at_threshold_witness:
  "episodes_sent (snd (segment_run LIVE_SILENCE_THRESHOLD LIVE_MAX_EPISODE_FRAMES
       five_then_quiet init_session) ! 19)
     = [(records_from 0 (take 5 five_then_quiet), tally_all (take 5 five_then_quiet) [])]
   \<and> active_frames (fst (segment_run LIVE_SILENCE_THRESHOLD LIVE_MAX_EPISODE_FRAMES
       five_then_quiet init_session)) = []
   \<and> episode_start_time (fst (segment_run LIVE_SILENCE_THRESHOLD LIVE_MAX_EPISODE_FRAMES
       five_then_quiet init_session)) = None"
proof -
  have h1: "length five_then_quiet = 20" by (simp add: five_then_quiet_def)
  have h2: "\<forall>i<5. has_activity (five_then_quiet ! i)"
    by (auto simp: five_then_quiet_def sample_frame_activity)
  have h3: "\<forall>i. 5 \<le> i \<and> i < 20 \<longrightarrow> \<not> has_activity (five_then_quiet ! i)"
    by (auto simp: five_then_quiet_def sample_frame_activity)
  show ?thesis
    using silence_closes_at_threshold[OF h1 h2 h3] unfolding case_prod_beta by blast
qed

section \<open>The frame cap\<close>

text \<open>
  Claim C4. In \<open>_process_stream\<close> (\<open>MAX_EPISODE_FRAMES = 300\<close>), take any 305 processed
  frames that all carry detections. Exactly one episode is sent, while the 300th frame
  (index 299) is processed, and it holds the 300 records of the frames 0 to 299. Afterwards
  the open episode holds exactly the records of the remaining five frames, numbered from
  zero again, with their own summary counts, and its start time is the time of the frame
  at which the episode was sent.
\<close>

theorem cap_forces_one_flush:
  assumes len: "length fs = 305"
    and act: "\<forall>p \<in> set fs. has_activity p"
  shows "case segment_run LIVE_SILENCE_THRESHOLD LIVE_MAX_EPISODE_FRAMES fs init_session of
     (s, tr) \<Rightarrow>
       length tr = 305 \<and>
       (\<forall>i<305. i \<noteq> 299 \<longrightarrow> episodes_sent (tr ! i) = []) \<and>
       episodes_sent (tr ! 299) = [(records_from 0 (take 300 fs), tally_all (take 300 fs) [])] \<and>
       length (records_from 0 (take 300 fs)) = 300 \<and>
       active_frames s = records_from 0 (drop 300 fs) \<and>
       length (active_frames s) = 5 \<and>
       detections_summary s = tally_all (drop 300 fs) [] \<and>
       episode_start_time s = Some (fi_time (snd (fs ! 299))) \<and>
       episode_count s = 1"
proof -
  define A where "A = take 299 fs"
  define B where "B = drop 300 fs"
  define x where "x = fs ! 299"
  have t300: "take 300 fs = A @ [x]"
    using len take_Suc_conv_app_nth[of 299 fs] by (simp add: A_def x_def)
  have fs: "fs = A @ [x] @ B"
    using append_take_drop_id[of 300 fs] t300 by (simp add: B_def)
  have lA: "length A = 299" and lB: "length B = 5" using len by (simp_all add: A_def B_def)
  have actA: "\<forall>p \<in> set A. has_activity p" using act by (auto simp: A_def dest: in_set_takeD)
  have actB: "\<forall>p \<in> set B. has_activity p" using act by (auto simp: B_def dest: in_set_dropD)
  have actx: "has_activity x" using act len by (simp add: x_def)
  obtain fc f where x: "x = (fc, f)" by (cases x)
  have Ane: "A \<noteq> []" and Bne: "B \<noteq> []" using lA lB by auto
  let ?em = "map (\<lambda>(fc, f). [Emit_detection fc (fi_image f) (fi_detections f),
                      Telegram_alert (fi_image f) (fi_detections f)])"
  let ?s1 = "init_session\<lparr> active_frames := active_frames init_session @ records_from (length (active_frames init_session)) A,
         detections_summary := tally_all A (detections_summary init_session),
         silence_counter := (if A = [] then silence_counter init_session else 0),
         episode_start_time := (case episode_start_time init_session of
             None \<Rightarrow> (if A = [] then None else Some (fi_time (snd (hd A))))
           | Some t \<Rightarrow> Some t) \<rparr>"
  have r1: "segment_run LIVE_SILENCE_THRESHOLD LIVE_MAX_EPISODE_FRAMES A init_session = (?s1, ?em A)"
    by (rule activity_run[OF actA]) (simp add: init_session_def lA LIVE_MAX_EPISODE_FRAMES_def)
  let ?s2 = "?s1\<lparr> active_frames := [], detections_summary := [], silence_counter := 0,
         episode_start_time := Some (fi_time f), episode_count := episode_count ?s1 + 1 \<rparr>"
  let ?c2 = "[Emit_detection fc (fi_image f) (fi_detections f), Telegram_alert (fi_image f) (fi_detections f),
       Send_episode (active_frames ?s1 @ [mk_record (length (active_frames ?s1)) fc f])
         (tally (fi_detections f) (detections_summary ?s1))]"
  have r2: "segment_frame LIVE_SILENCE_THRESHOLD LIVE_MAX_EPISODE_FRAMES fc f ?s1 = (?s2, ?c2)"
    apply (rule cap_flush)
    using actx x by (simp_all add: lA LIVE_MAX_EPISODE_FRAMES_def init_session_def)
  let ?s3 = "?s2\<lparr> active_frames := active_frames ?s2 @ records_from (length (active_frames ?s2)) B,
         detections_summary := tally_all B (detections_summary ?s2),
         silence_counter := (if B = [] then silence_counter ?s2 else 0),
         episode_start_time := (case episode_start_time ?s2 of
             None \<Rightarrow> (if B = [] then None else Some (fi_time (snd (hd B))))
           | Some t \<Rightarrow> Some t) \<rparr>"
  have r3: "segment_run LIVE_SILENCE_THRESHOLD LIVE_MAX_EPISODE_FRAMES B ?s2 = (?s3, ?em B)"
    by (rule activity_run[OF actB]) (simp add: lB LIVE_MAX_EPISODE_FRAMES_def)
  have run: "segment_run LIVE_SILENCE_THRESHOLD LIVE_MAX_EPISODE_FRAMES fs init_session =
     (?s3, ?em A @ [?c2] @ ?em B)"
    apply (subst fs)
    apply (simp only: segment_run_append r1 r2 r3 Let_def prod.case x segment_run.simps)
    done
  have sent: "episodes_sent ?c2 = [(records_from 0 (take 300 fs), tally_all (take 300 fs) [])]"
    by (simp add: t300 records_from_append tally_all_append lA x init_session_def)
  have quiet: "\<forall>i<305. i \<noteq> 299 \<longrightarrow> episodes_sent ((?em A @ [?c2] @ ?em B) ! i) = []"
  proof (intro allI impI)
    fix i :: nat assume "i < 305" "i \<noteq> 299"
    then consider "i < 299" | "300 \<le> i" "i - 300 < 5" by linarith
    then show "episodes_sent ((?em A @ [?c2] @ ?em B) ! i) = []"
    proof cases
      case 1 then show ?thesis using lA by (simp add: nth_append case_prod_beta)
    next
      case 2
      then have "(?em A @ [?c2] @ ?em B) ! i = ?em B ! (i - 300)"
        using lA by (simp add: nth_append nth_Cons')
      then show ?thesis using 2 lB by (simp add: case_prod_beta)
    qed
  qed
  have at: "(?em A @ [?c2] @ ?em B) ! 299 = ?c2" using lA by (simp add: nth_append)
  show ?thesis
    unfolding run prod.case
    apply (intro conjI)
    subgoal using lA lB by simp
    subgoal by (rule quiet)
    subgoal by (simp only: at sent)
    subgoal using len by simp
    subgoal by (simp add: B_def)
    subgoal using lB by simp
    subgoal by (simp add: B_def)
    subgoal using x by (simp add: x_def)
    subgoal by (simp add: init_session_def)
    done
qed

theorem cap_forces_one_flush_witness:
  "episodes_sent (snd (segment_run LIVE_SILENCE_THRESHOLD LIVE_MAX_EPISODE_FRAMES
       (steady_activity 305) init_session) ! 299)
     = [(records_from 0 (take 300 (steady_activity 305)),
         tally_all (take 300 (steady_activity 305)) [])]
   \<and> length (active_frames (fst (segment_run LIVE_SILENCE_THRESHOLD LIVE_MAX_EPISODE_FRAMES
       (steady_activity 305) init_session))) = 5
   \<and> episode_count (fst (segment_run LIVE_SILENCE_THRESHOLD LIVE_MAX_EPISODE_FRAMES
       (steady_activity 305) init_session)) = 1"
  using cap_forces_one_flush[OF steady_activity_facts(1)[of 305] steady_activity_facts(2)[of 305]]
  unfolding case_prod_beta by blast

section \<open>Invariants of the two loops\<close>

lemma live_loop_invariant:
  assumes "P s"
    and "\<And>s n. P s \<Longrightarrow> P (s\<lparr> consecutive_failures := n \<rparr>)"
    and "\<And>s fc f. P s \<Longrightarrow> P (fst (live_frame fc f s))"
  shows "P (fst (snd (live_loop rs fc s)))"
  using assms(1)
proof (induction rs arbitrary: fc s)
  case Nil
  then show ?case by simp
next
  case (Cons r rs)
  show ?case
  proof (cases r)
    case Read_failed
    then show ?thesis using Cons assms(2) by simp
  next
    case (Read_ok f)
    have P0: "P (s\<lparr> consecutive_failures := 0 \<rparr>)" using Cons.prems assms(2) by blast
    have P1: "P (fst (live_frame (fc + 1) f (s\<lparr> consecutive_failures := 0 \<rparr>)))"
      using P0 assms(3) by blast
    show ?thesis
      using Read_ok Cons.prems Cons.IH[OF P0] Cons.IH[OF P1]
      by (simp add: Let_def case_prod_beta)
  qed
qed

lemma http_iteration_invariant:
  assumes "P s"
    and "\<And>s n. P s \<Longrightarrow> P (s\<lparr> consecutive_failures := n \<rparr>)"
    and "\<And>s fc f. P s \<Longrightarrow> P (fst (http_frame fc f s))"
    and "\<And>s f. P s \<Longrightarrow> P (activity_interrupted f s)"
    and "\<And>s m. P s \<Longrightarrow> P (s\<lparr> detections_summary := m \<rparr>)"
  shows "P (fst (snd (http_iteration p fc s)))"
proof -
  have P0: "P (s\<lparr> consecutive_failures := 0 \<rparr>)" using assms(1,2) by blast
  have frame: "\<And>f. P (fst (http_frame (fc + 1) f (s\<lparr> consecutive_failures := 0 \<rparr>)))"
    using P0 assms(3) by blast
  have intr: "\<And>f. P ((activity_interrupted f (s\<lparr> consecutive_failures := 0 \<rparr>))
      \<lparr> consecutive_failures := 0 + 1 \<rparr>)"
    using P0 assms(2,4) by blast
  have copy: "\<And>f. P ((activity_interrupted f (s\<lparr> consecutive_failures := 0 \<rparr>))
      \<lparr> detections_summary := tally (fi_detections f) (detections_summary s),
        consecutive_failures := 0 + 1 \<rparr>)"
    using P0 assms(2,4,5) by blast
  show ?thesis
  proof (cases p)
    case Fetch_failed
    then show ?thesis using assms(1,2) by (simp add: http_iteration_def)
  next
    case (Fetch_ok f)
    then show ?thesis using frame[of f] by (simp add: http_iteration_def case_prod_beta)
  next
    case Detect_raised
    then show ?thesis using assms(1,2) by (simp add: http_iteration_def)
  next
    case (Emit_raised f)
    then show ?thesis
      using frame[of f] intr[of f] by (simp add: http_iteration_def case_prod_beta)
  next
    case (Alert_raised f)
    then show ?thesis
      using frame[of f] intr[of f] by (simp add: http_iteration_def case_prod_beta)
  next
    case (Copy_raised f)
    then show ?thesis
      using frame[of f] copy[of f] by (simp add: http_iteration_def case_prod_beta)
  qed
qed

lemma http_loop_invariant:
  assumes "P s"
    and "\<And>s n. P s \<Longrightarrow> P (s\<lparr> consecutive_failures := n \<rparr>)"
    and "\<And>s fc f. P s \<Longrightarrow> P (fst (http_frame fc f s))"
    and "\<And>s f. P s \<Longrightarrow> P (activity_interrupted f s)"
    and "\<And>s m. P s \<Longrightarrow> P (s\<lparr> detections_summary := m \<rparr>)"
  shows "P (fst (snd (http_loop ps fc s)))"
  using assms(1)
proof (induction ps arbitrary: fc s)
  case Nil
  then show ?case by simp
next
  case (Cons p ps)
  have "P (fst (snd (http_iteration p fc s)))"
    using Cons.prems assms(2,3,4,5) by (rule http_iteration_invariant)
  from Cons.IH[OF this] show ?case
    using Cons.prems by (simp add: case_prod_beta Let_def)
qed

lemma segment_frame_below_cap:
  assumes "0 < mf" "length (active_frames s) < mf"
  shows "length (active_frames (fst (segment_frame st mf fc f s))) < mf"
  using assms by (simp add: segment_frame_def on_activity_def on_silence_def Let_def)

lemma segment_frame_started:
  assumes "active_frames s \<noteq> [] \<longrightarrow> episode_start_time s \<noteq> None"
  shows "active_frames (fst (segment_frame st mf fc f s)) \<noteq> []
           \<longrightarrow> episode_start_time (fst (segment_frame st mf fc f s)) \<noteq> None"
  using assms
  by (simp add: segment_frame_def on_activity_def on_silence_def Let_def split: option.splits)

lemma live_loop_below_cap:
  "length (active_frames (fst (snd (live_loop rs fc init_session)))) < LIVE_MAX_EPISODE_FRAMES"
proof (rule live_loop_invariant[where P = "\<lambda>s. length (active_frames s) < LIVE_MAX_EPISODE_FRAMES"])
  show "length (active_frames init_session) < LIVE_MAX_EPISODE_FRAMES"
    by (simp add: init_session_def LIVE_MAX_EPISODE_FRAMES_def)
next
  fix s :: session and n
  assume "length (active_frames s) < LIVE_MAX_EPISODE_FRAMES"
  then show "length (active_frames (s\<lparr> consecutive_failures := n \<rparr>)) < LIVE_MAX_EPISODE_FRAMES"
    by simp
next
  fix s :: session and fc f
  assume "length (active_frames s) < LIVE_MAX_EPISODE_FRAMES"
  then show "length (active_frames (fst (live_frame fc f s))) < LIVE_MAX_EPISODE_FRAMES"
    unfolding live_frame_def
    by (intro segment_frame_below_cap) (simp_all add: LIVE_MAX_EPISODE_FRAMES_def)
qed

lemma http_loop_below_cap:
  "length (active_frames (fst (snd (http_loop ps fc init_session)))) < HTTP_MAX_EPISODE_FRAMES"
proof (rule http_loop_invariant[where P = "\<lambda>s. length (active_frames s) < HTTP_MAX_EPISODE_FRAMES"])
  show "length (active_frames init_session) < HTTP_MAX_EPISODE_FRAMES"
    by (simp add: init_session_def HTTP_MAX_EPISODE_FRAMES_def)
next
  fix s :: session and n
  assume "length (active_frames s) < HTTP_MAX_EPISODE_FRAMES"
  then show "length (active_frames (s\<lparr> consecutive_failures := n \<rparr>)) < HTTP_MAX_EPISODE_FRAMES"
    by simp
next
  fix s :: session and fc f
  assume "length (active_frames s) < HTTP_MAX_EPISODE_FRAMES"
  then show "length (active_frames (fst (http_frame fc f s))) < HTTP_MAX_EPISODE_FRAMES"
    unfolding http_frame_def
    by (intro segment_frame_below_cap) (simp_all add: HTTP_MAX_EPISODE_FRAMES_def)
next
  fix s :: session and f
  assume "length (active_frames s) < HTTP_MAX_EPISODE_FRAMES"
  then show "length (active_frames (activity_interrupted f s)) < HTTP_MAX_EPISODE_FRAMES"
    by (simp add: activity_interrupted_def)
next
  fix s :: session and m
  assume "length (active_frames s) < HTTP_MAX_EPISODE_FRAMES"
  then show "length (active_frames (s\<lparr> detections_summary := m \<rparr>)) < HTTP_MAX_EPISODE_FRAMES"
    by simp
qed

section \<open>The bound on the open episode\<close>

text \<open>
  Claim C2. Whatever the reads of a live session or the polls of a polling session are, the
  state in which the loop stands after them holds at most \<open>MAX_EPISODE_FRAMES\<close> records
  in \<open>active_frames\<close> (300 in \<open>_process_stream\<close>, 120 in \<open>_http_polling_session\<close>);
  the input being arbitrary, this covers the state between any two iterations. And when the
  append of a frame with detections brings the count to the cap, the same iteration sends
  the episode, with the new record in it, and leaves \<open>active_frames\<close> empty.
\<close>

theorem episode_never_exceeds_cap:
  "length (active_frames (fst (snd (live_loop rs fc init_session)))) \<le> LIVE_MAX_EPISODE_FRAMES
   \<and> length (active_frames (fst (snd (http_loop ps fc' init_session)))) \<le> HTTP_MAX_EPISODE_FRAMES
   \<and> (fi_detections f \<noteq> [] \<and> length (active_frames s) + 1 = LIVE_MAX_EPISODE_FRAMES \<longrightarrow>
        active_frames (fst (live_frame n f s)) = [] \<and>
        episodes_sent (snd (live_frame n f s)) =
          [(active_frames s @ [mk_record (length (active_frames s)) n f],
            tally (fi_detections f) (detections_summary s))])
   \<and> (fi_detections f \<noteq> [] \<and> length (active_frames s) + 1 = HTTP_MAX_EPISODE_FRAMES \<longrightarrow>
        active_frames (fst (http_frame n f s)) = [] \<and>
        episodes_sent (snd (http_frame n f s)) =
          [(active_frames s @ [mk_record (length (active_frames s)) n f],
            tally (fi_detections f) (detections_summary s))])"
proof (intro conjI impI)
  show "length (active_frames (fst (snd (live_loop rs fc init_session)))) \<le> LIVE_MAX_EPISODE_FRAMES"
    using live_loop_below_cap[of rs fc] by simp
  show "length (active_frames (fst (snd (http_loop ps fc' init_session)))) \<le> HTTP_MAX_EPISODE_FRAMES"
    using http_loop_below_cap[of ps fc'] by simp
next
  assume a: "fi_detections f \<noteq> [] \<and> length (active_frames s) + 1 = LIVE_MAX_EPISODE_FRAMES"
  then have "has_activity (n, f)" by (simp add: has_activity_def)
  from cap_flush[OF this, of LIVE_MAX_EPISODE_FRAMES s LIVE_SILENCE_THRESHOLD] a
  show "active_frames (fst (live_frame n f s)) = []"
    and "episodes_sent (snd (live_frame n f s)) =
          [(active_frames s @ [mk_record (length (active_frames s)) n f],
            tally (fi_detections f) (detections_summary s))]"
    by (simp_all add: live_frame_def)
next
  assume a: "fi_detections f \<noteq> [] \<and> length (active_frames s) + 1 = HTTP_MAX_EPISODE_FRAMES"
  then have "has_activity (n, f)" by (simp add: has_activity_def)
  from cap_flush[OF this, of HTTP_MAX_EPISODE_FRAMES s HTTP_SILENCE_THRESHOLD] a
  show "active_frames (fst (http_frame n f s)) = []"
    and "episodes_sent (snd (http_frame n f s)) =
          [(active_frames s @ [mk_record (length (active_frames s)) n f],
            tally (fi_detections f) (detections_summary s))]"
    by (simp_all add: http_frame_def)
qed

theorem episode_never_exceeds_cap_witness:
  "length (active_frames (fst (snd (live_loop (map (\<lambda>p. Read_ok (snd p)) five_then_quiet) 0
       init_session)))) \<le> LIVE_MAX_EPISODE_FRAMES
   \<and> length (active_frames (fst (snd (http_loop (map (\<lambda>p. Fetch_ok (snd p)) five_then_quiet) 0
       init_session)))) \<le> HTTP_MAX_EPISODE_FRAMES
   \<and> active_frames (fst (live_frame 900 (sample_frame 299 True)
         (init_session\<lparr> active_frames := records_from 0 (steady_activity 299),
                         episode_start_time := Some 1000 \<rparr>))) = []
   \<and> active_frames (fst (http_frame 120 (sample_frame 119 True)
         (init_session\<lparr> active_frames := records_from 0 (steady_activity 119),
                         episode_start_time := Some 1000 \<rparr>))) = []"
proof -
  let ?live = "init_session\<lparr> active_frames := records_from 0 (steady_activity 299),
                         episode_start_time := Some 1000 \<rparr>"
  let ?http = "init_session\<lparr> active_frames := records_from 0 (steady_activity 119),
                         episode_start_time := Some 1000 \<rparr>"
  have h1: "fi_detections (sample_frame 299 True) \<noteq> []
      \<and> length (active_frames ?live) + 1 = LIVE_MAX_EPISODE_FRAMES"
    by (simp add: sample_frame_def steady_activity_facts LIVE_MAX_EPISODE_FRAMES_def)
  have h2: "fi_detections (sample_frame 119 True) \<noteq> []
      \<and> length (active_frames ?http) + 1 = HTTP_MAX_EPISODE_FRAMES"
    by (simp add: sample_frame_def steady_activity_facts HTTP_MAX_EPISODE_FRAMES_def)
  show ?thesis
    using h1 h2
      episode_never_exceeds_cap[of "map (\<lambda>p. Read_ok (snd p)) five_then_quiet" 0
        "map (\<lambda>p. Fetch_ok (snd p)) five_then_quiet" 0 "sample_frame 299 True" ?live 900]
      episode_never_exceeds_cap[of "[]" 0 "[]" 0 "sample_frame 119 True" ?http 120]
    by blast
qed

section \<open>Runs that reach the cap\<close>

lemma segment_frame_failures [simp]:
  "consecutive_failures (fst (segment_frame st mf fc f s)) = consecutive_failures s"
  by (simp add: segment_frame_def on_activity_def on_silence_def Let_def)

lemma http_loop_frames:
  "consecutive_failures s = 0 \<Longrightarrow>
     http_loop (map Fetch_ok fs) fc s =
       (fc + length fs,
        fst (segment_run HTTP_SILENCE_THRESHOLD HTTP_MAX_EPISODE_FRAMES (number_from fc fs) s),
        concat (snd (segment_run HTTP_SILENCE_THRESHOLD HTTP_MAX_EPISODE_FRAMES (number_from fc fs) s)))"
proof (induction fs arbitrary: fc s)
  case Nil
  then show ?case by simp
next
  case (Cons f fs)
  have same: "s\<lparr> consecutive_failures := 0 \<rparr> = s" using Cons.prems by (cases s) simp
  let ?s1 = "fst (http_frame (fc + 1) f s)"
  have "consecutive_failures ?s1 = 0" using Cons.prems by (simp add: http_frame_def)
  from Cons.IH[OF this, of "fc + 1"] show ?case
    using Cons.prems
    by (simp add: same HTTP_MAX_FAILURES_def case_prod_beta Let_def http_frame_def
        http_iteration_def)
qed

lemma live_loop_reads:
  "consecutive_failures s = 0 \<Longrightarrow> fc mod 3 = 0 \<Longrightarrow>
     live_loop (live_reads fs) fc s =
       (fc + 3 * length fs,
        fst (segment_run LIVE_SILENCE_THRESHOLD LIVE_MAX_EPISODE_FRAMES (live_numbers fc fs) s),
        concat (snd (segment_run LIVE_SILENCE_THRESHOLD LIVE_MAX_EPISODE_FRAMES
          (live_numbers fc fs) s)))"
proof (induction fs arbitrary: fc s)
  case Nil
  then show ?case by simp
next
  case (Cons f fs)
  have same: "s\<lparr> consecutive_failures := 0 \<rparr> = s" using Cons.prems by (cases s) simp
  have m1: "(fc + 1) mod 3 \<noteq> 0" and m2: "(fc + 2) mod 3 \<noteq> 0" and m3: "(fc + 3) mod 3 = 0"
    using Cons.prems(2) by presburger+
  let ?s1 = "fst (live_frame (fc + 3) f s)"
  have cf1: "consecutive_failures ?s1 = 0" using Cons.prems by (simp add: live_frame_def)
  have e: "Suc (Suc (Suc fc)) = fc + 3" by simp
  from Cons.IH[OF cf1 m3] show ?case
    using Cons.prems(1) m1 m2 m3
    by (simp add: same LIVE_MAX_FAILURES_def LIVE_FRAME_SKIP_def case_prod_beta Let_def
        live_frame_def e)
qed

lemma live_numbers_append:
  "live_numbers fc (xs @ ys) = live_numbers fc xs @ live_numbers (fc + 3 * length xs) ys"
  by (induction xs arbitrary: fc) (auto simp: add.assoc)

lemma length_live_numbers [simp]: "length (live_numbers fc fs) = length fs"
  by (induction fs arbitrary: fc) auto

lemma live_numbers_activity:
  "\<forall>f \<in> set fs. fi_detections f \<noteq> [] \<Longrightarrow> \<forall>p \<in> set (live_numbers fc fs). has_activity p"
  by (induction fs arbitrary: fc) (auto simp: has_activity_def)

lemma number_from_append:
  "number_from fc (xs @ ys) = number_from fc xs @ number_from (fc + length xs) ys"
  by (induction xs arbitrary: fc) auto

lemma length_number_from [simp]: "length (number_from fc fs) = length fs"
  by (induction fs arbitrary: fc) auto

lemma number_from_activity:
  "\<forall>f \<in> set fs. fi_detections f \<noteq> [] \<Longrightarrow> \<forall>p \<in> set (number_from fc fs). has_activity p"
  by (induction fs arbitrary: fc) (auto simp: has_activity_def)

text \<open>A run of frames with detections whose last frame fills the episode to the cap.\<close>

lemma cap_reached_run:
  assumes act: "\<forall>p \<in> set fs. has_activity p" "has_activity (fc, f)"
    and len: "length fs + 1 = mf"
  shows "fst (segment_run st mf (fs @ [(fc, f)]) init_session) =
           init_session\<lparr> active_frames := [], detections_summary := [], silence_counter := 0,
             episode_start_time := Some (fi_time f), episode_count := 1 \<rparr>"
    and "episodes_sent (snd (segment_run st mf (fs @ [(fc, f)]) init_session) ! length fs) \<noteq> []"
proof -
  define s1 where "s1 = fst (segment_run st mf fs init_session)"
  define t1 where "t1 = snd (segment_run st mf fs init_session)"
  have lt: "length t1 = length fs" unfolding t1_def by (rule length_segment_run)
  have l1: "length (active_frames s1) = length fs" and c1: "episode_count s1 = 0"
    unfolding s1_def using len
    by (subst activity_run[OF act(1)]; simp add: init_session_def)+
  have step: "segment_frame st mf fc f s1 =
     (s1\<lparr> active_frames := [], detections_summary := [], silence_counter := 0,
         episode_start_time := Some (fi_time f), episode_count := episode_count s1 + 1 \<rparr>,
      [Emit_detection fc (fi_image f) (fi_detections f), Telegram_alert (fi_image f) (fi_detections f),
       Send_episode (active_frames s1 @ [mk_record (length (active_frames s1)) fc f])
         (tally (fi_detections f) (detections_summary s1))])"
    by (rule cap_flush[OF act(2)]) (use len in \<open>simp add: l1\<close>)
  have run: "segment_run st mf (fs @ [(fc, f)]) init_session =
      (fst (segment_frame st mf fc f s1), t1 @ [snd (segment_frame st mf fc f s1)])"
    by (simp add: segment_run_append case_prod_beta Let_def s1_def t1_def)
  have eq: "s1\<lparr> active_frames := [], detections_summary := [], silence_counter := 0,
         episode_start_time := Some (fi_time f), episode_count := episode_count s1 + 1 \<rparr> =
       init_session\<lparr> active_frames := [], detections_summary := [], silence_counter := 0,
             episode_start_time := Some (fi_time f), episode_count := 1 \<rparr>"
    unfolding s1_def using len
    by (subst activity_run[OF act(1)]; simp add: init_session_def)+
  show "fst (segment_run st mf (fs @ [(fc, f)]) init_session) =
           init_session\<lparr> active_frames := [], detections_summary := [], silence_counter := 0,
             episode_start_time := Some (fi_time f), episode_count := 1 \<rparr>"
    by (simp only: run step fst_conv eq)
  show "episodes_sent (snd (segment_run st mf (fs @ [(fc, f)]) init_session) ! length fs) \<noteq> []"
    using lt by (simp add: run step nth_append)
qed

lemma replicate_snoc: "replicate (Suc n) x = replicate n x @ [x]"
  by (simp only: replicate_Suc replicate_append_same)

lemma live_loop_stopped:
  "\<not> consecutive_failures s < LIVE_MAX_FAILURES \<Longrightarrow> live_loop rs fc s = (fc, s, [])"
  by (cases rs) simp_all

lemma http_loop_stopped:
  "\<not> consecutive_failures s < HTTP_MAX_FAILURES \<Longrightarrow> http_loop ps fc s = (fc, s, [])"
  by (cases ps) simp_all

lemma live_loop_append:
  "live_loop (xs @ ys) fc s =
     (let (fc1, s1, c1) = live_loop xs fc s; (fc2, s2, c2) = live_loop ys fc1 s1
      in (fc2, s2, c1 @ c2))"
proof (induction xs arbitrary: fc s)
  case Nil
  then show ?case by (simp add: case_prod_beta)
next
  case (Cons r xs)
  show ?case
  proof (cases "consecutive_failures s < LIVE_MAX_FAILURES")
    case False
    then show ?thesis by (simp add: live_loop_stopped)
  next
    case True
    show ?thesis
    proof (cases r)
      case Read_failed
      then show ?thesis using True Cons.IH by simp
    next
      case (Read_ok f)
      then show ?thesis using True Cons.IH by (simp add: Let_def case_prod_beta)
    qed
  qed
qed

lemma http_loop_append:
  "http_loop (xs @ ys) fc s =
     (let (fc1, s1, c1) = http_loop xs fc s; (fc2, s2, c2) = http_loop ys fc1 s1
      in (fc2, s2, c1 @ c2))"
proof (induction xs arbitrary: fc s)
  case Nil
  then show ?case by (simp add: case_prod_beta)
next
  case (Cons p xs)
  show ?case
  proof (cases "consecutive_failures s < HTTP_MAX_FAILURES")
    case False
    then show ?thesis by (simp add: http_loop_stopped)
  next
    case True
    then show ?thesis using Cons.IH by (simp add: Let_def case_prod_beta)
  qed
qed

lemma live_state_snoc:
  "live_state (xs @ [r]) fc = fst (snd (live_loop [r] (live_count xs fc) (live_state xs fc)))"
  by (simp add: live_state_def live_count_def live_loop_append case_prod_beta Let_def)

lemma http_state_snoc:
  "http_state (xs @ [p]) fc = fst (snd (http_loop [p] (http_count xs fc) (http_state xs fc)))"
  by (simp add: http_state_def http_count_def http_loop_append case_prod_beta Let_def)

text \<open>
  Where a step of the loop body enters a state with a start time and no record, it has
  flushed at the cap.
\<close>

lemma entering_step:
  assumes "\<not> empty_open s" "empty_open (fst (segment_frame st mf fc f s))"
  shows "cap_flush mf f (snd (segment_frame st mf fc f s))"
  using assms
  by (auto simp: segment_frame_def on_activity_def on_silence_def Let_def empty_open_def
      cap_flush_def split: if_splits)

lemma empty_open_failures [simp]:
  "empty_open (s\<lparr> consecutive_failures := n \<rparr>) = empty_open s"
  by (simp add: empty_open_def)

lemma live_entering:
  assumes "\<not> empty_open s" "empty_open (fst (snd (live_loop [r] fc s)))"
  shows "case r of Read_failed \<Rightarrow> False
     | Read_ok f \<Rightarrow> cap_flush LIVE_MAX_EPISODE_FRAMES f (snd (snd (live_loop [r] fc s)))"
proof (cases "consecutive_failures s < LIVE_MAX_FAILURES")
  case False
  then show ?thesis using assms by (simp add: live_loop_stopped)
next
  case True
  show ?thesis
  proof (cases r)
    case Read_failed
    then show ?thesis using assms True by simp
  next
    case (Read_ok f)
    show ?thesis
    proof (cases "(fc + 1) mod LIVE_FRAME_SKIP \<noteq> 0")
      case True
      then show ?thesis
        using assms Read_ok \<open>consecutive_failures s < LIVE_MAX_FAILURES\<close> by (simp add: Let_def)
    next
      case False
      let ?s0 = "s\<lparr> consecutive_failures := 0 \<rparr>"
      have run: "live_loop [r] fc s =
          (fc + 1, fst (live_frame (fc + 1) f ?s0), snd (live_frame (fc + 1) f ?s0))"
        using False Read_ok \<open>consecutive_failures s < LIVE_MAX_FAILURES\<close>
        by (simp add: Let_def case_prod_beta)
      have "\<not> empty_open ?s0" using assms(1) by simp
      moreover have "empty_open (fst (segment_frame LIVE_SILENCE_THRESHOLD
          LIVE_MAX_EPISODE_FRAMES (fc + 1) f ?s0))"
        using assms(2) unfolding run live_frame_def by simp
      ultimately have "cap_flush LIVE_MAX_EPISODE_FRAMES f (snd (segment_frame
          LIVE_SILENCE_THRESHOLD LIVE_MAX_EPISODE_FRAMES (fc + 1) f ?s0))"
        by (rule entering_step)
      then show ?thesis unfolding run live_frame_def by (simp add: Read_ok)
    qed
  qed
qed

lemma http_iteration_entering:
  assumes "\<not> empty_open s" "empty_open (fst (snd (http_iteration p fc s)))"
    and "consecutive_failures s < HTTP_MAX_FAILURES"
  shows "case p of Fetch_failed \<Rightarrow> False | Detect_raised \<Rightarrow> False
     | Fetch_ok f \<Rightarrow> cap_flush HTTP_MAX_EPISODE_FRAMES f (snd (snd (http_iteration p fc s)))
     | Emit_raised f \<Rightarrow> fi_detections f \<noteq> []
         \<and> consecutive_failures s < HTTP_MAX_FAILURES \<and> episode_start_time s = None
     | Alert_raised f \<Rightarrow> fi_detections f \<noteq> []
         \<and> consecutive_failures s < HTTP_MAX_FAILURES \<and> episode_start_time s = None
     | Copy_raised f \<Rightarrow> fi_detections f \<noteq> []
         \<and> consecutive_failures s < HTTP_MAX_FAILURES \<and> episode_start_time s = None"
proof -
  let ?s0 = "s\<lparr> consecutive_failures := 0 \<rparr>"
  have n0: "\<not> empty_open ?s0" using assms(1) by simp
  have frame: "\<And>f. empty_open (fst (http_frame (fc + 1) f ?s0)) \<Longrightarrow>
      cap_flush HTTP_MAX_EPISODE_FRAMES f (snd (http_frame (fc + 1) f ?s0))"
    unfolding http_frame_def using n0 by (rule entering_step)
  have silent: "\<And>f. fi_detections f = [] \<Longrightarrow> \<not> empty_open (fst (http_frame (fc + 1) f ?s0))"
  proof
    fix f assume "fi_detections f = []" "empty_open (fst (http_frame (fc + 1) f ?s0))"
    then show False using frame[of f] by (simp add: cap_flush_def)
  qed
  have intr: "\<And>f. empty_open ((activity_interrupted f ?s0)\<lparr> consecutive_failures := 0 + 1 \<rparr>)
      \<Longrightarrow> episode_start_time s = None"
    using assms(1) by (auto simp: activity_interrupted_def empty_open_def)
  have copy: "\<And>f m. empty_open ((activity_interrupted f ?s0)
      \<lparr> detections_summary := m, consecutive_failures := 0 + 1 \<rparr>)
      \<Longrightarrow> episode_start_time s = None"
    using assms(1) by (auto simp: activity_interrupted_def empty_open_def)
  show ?thesis
  proof (cases p)
    case Fetch_failed
    then show ?thesis using assms(1,2) by (simp add: http_iteration_def)
  next
    case Detect_raised
    then show ?thesis using assms(1,2) by (simp add: http_iteration_def)
  next
    case (Fetch_ok f)
    then show ?thesis
      using assms(2) frame[of f] by (simp add: http_iteration_def case_prod_beta)
  next
    case (Emit_raised f)
    then show ?thesis
      using assms(2,3) silent[of f] intr[of f]
      by (auto simp: http_iteration_def case_prod_beta split: if_splits)
  next
    case (Alert_raised f)
    then show ?thesis
      using assms(2,3) silent[of f] intr[of f]
      by (auto simp: http_iteration_def case_prod_beta split: if_splits)
  next
    case (Copy_raised f)
    then show ?thesis
      using assms(2,3) silent[of f]
        copy[where f = f and m = "tally (fi_detections f) (detections_summary s)"]
      by (auto simp: http_iteration_def case_prod_beta split: if_splits)
  qed
qed

lemma http_entering:
  assumes "\<not> empty_open s" "empty_open (fst (snd (http_loop [p] fc s)))"
  shows "case p of Fetch_failed \<Rightarrow> False | Detect_raised \<Rightarrow> False
     | Fetch_ok f \<Rightarrow> cap_flush HTTP_MAX_EPISODE_FRAMES f (snd (snd (http_loop [p] fc s)))
     | Emit_raised f \<Rightarrow> fi_detections f \<noteq> []
         \<and> consecutive_failures s < HTTP_MAX_FAILURES \<and> episode_start_time s = None
     | Alert_raised f \<Rightarrow> fi_detections f \<noteq> []
         \<and> consecutive_failures s < HTTP_MAX_FAILURES \<and> episode_start_time s = None
     | Copy_raised f \<Rightarrow> fi_detections f \<noteq> []
         \<and> consecutive_failures s < HTTP_MAX_FAILURES \<and> episode_start_time s = None"
proof (cases "consecutive_failures s < HTTP_MAX_FAILURES")
  case False
  then show ?thesis using assms by (simp add: http_loop_stopped)
next
  case True
  have run: "http_loop [p] fc s = http_iteration p fc s"
    using True by (simp add: case_prod_beta)
  have "empty_open (fst (snd (http_iteration p fc s)))" using assms(2) unfolding run .
  with assms(1) show ?thesis unfolding run using True by (rule http_iteration_entering)
qed

lemma live_empty_open_trace:
  assumes "empty_open (live_state rs fc)"
  shows "\<exists>pre r post. rs = pre @ r # post \<and> live_cause pre r fc
           \<and> (\<forall>k \<le> length post. active_frames (live_state (pre @ r # take k post) fc) = [])"
  using assms
proof (induction rs rule: rev_induct)
  case Nil
  then show ?case by (simp add: live_state_def init_session_def empty_open_def)
next
  case (snoc q xs)
  have fin: "active_frames (live_state (xs @ [q]) fc) = []"
    using snoc.prems by (simp add: empty_open_def)
  show ?case
  proof (cases "empty_open (live_state xs fc)")
    case True
    then obtain pre r post where h: "xs = pre @ r # post" "live_cause pre r fc"
        "\<forall>k \<le> length post. active_frames (live_state (pre @ r # take k post) fc) = []"
      using snoc.IH by blast
    have "\<forall>k \<le> length (post @ [q]).
        active_frames (live_state (pre @ r # take k (post @ [q])) fc) = []"
    proof (intro allI impI)
      fix k assume k: "k \<le> length (post @ [q])"
      show "active_frames (live_state (pre @ r # take k (post @ [q])) fc) = []"
      proof (cases "k \<le> length post")
        case True
        then show ?thesis using h(3) by simp
      next
        case False
        then have "take k (post @ [q]) = post @ [q]" using k by simp
        then show ?thesis using fin h(1) by simp
      qed
    qed
    moreover have "xs @ [q] = pre @ r # (post @ [q])" using h(1) by simp
    ultimately show ?thesis using h(2) by blast
  next
    case False
    have "empty_open (fst (snd (live_loop [q] (live_count xs fc) (live_state xs fc))))"
      using snoc.prems by (simp add: live_state_snoc)
    with False have "live_cause xs q fc"
      unfolding live_cause_def by (rule live_entering)
    moreover have "\<forall>k \<le> length ([]::read list).
        active_frames (live_state (xs @ q # take k []) fc) = []"
      using fin by simp
    ultimately show ?thesis by blast
  qed
qed

lemma http_empty_open_trace:
  assumes "empty_open (http_state ps fc)"
  shows "\<exists>pre p post. ps = pre @ p # post \<and> http_cause pre p fc
           \<and> (\<forall>k \<le> length post. active_frames (http_state (pre @ p # take k post) fc) = [])"
  using assms
proof (induction ps rule: rev_induct)
  case Nil
  then show ?case by (simp add: http_state_def init_session_def empty_open_def)
next
  case (snoc q xs)
  have fin: "active_frames (http_state (xs @ [q]) fc) = []"
    using snoc.prems by (simp add: empty_open_def)
  show ?case
  proof (cases "empty_open (http_state xs fc)")
    case True
    then obtain pre p post where h: "xs = pre @ p # post" "http_cause pre p fc"
        "\<forall>k \<le> length post. active_frames (http_state (pre @ p # take k post) fc) = []"
      using snoc.IH by blast
    have "\<forall>k \<le> length (post @ [q]).
        active_frames (http_state (pre @ p # take k (post @ [q])) fc) = []"
    proof (intro allI impI)
      fix k assume k: "k \<le> length (post @ [q])"
      show "active_frames (http_state (pre @ p # take k (post @ [q])) fc) = []"
      proof (cases "k \<le> length post")
        case True
        then show ?thesis using h(3) by simp
      next
        case False
        then have "take k (post @ [q]) = post @ [q]" using k by simp
        then show ?thesis using fin h(1) by simp
      qed
    qed
    moreover have "xs @ [q] = pre @ p # (post @ [q])" using h(1) by simp
    ultimately show ?thesis using h(2) by blast
  next
    case False
    have "empty_open (fst (snd (http_loop [q] (http_count xs fc) (http_state xs fc))))"
      using snoc.prems by (simp add: http_state_snoc)
    with False have "http_cause xs q fc"
      unfolding http_cause_def raised_on_opening_def by (rule http_entering)
    moreover have "\<forall>k \<le> length ([]::poll list).
        active_frames (http_state (xs @ q # take k []) fc) = []"
      using fin by simp
    ultimately show ?thesis by blast
  qed
qed

lemma live_loop_started:
  "active_frames (fst (snd (live_loop rs fc init_session))) \<noteq> [] \<longrightarrow>
     episode_start_time (fst (snd (live_loop rs fc init_session))) \<noteq> None"
proof (rule live_loop_invariant[where P = "\<lambda>s. active_frames s \<noteq> [] \<longrightarrow> episode_start_time s \<noteq> None"])
  show "active_frames init_session \<noteq> [] \<longrightarrow> episode_start_time init_session \<noteq> None"
    by (simp add: init_session_def)
next
  fix s :: session and n
  assume "active_frames s \<noteq> [] \<longrightarrow> episode_start_time s \<noteq> None"
  then show "active_frames (s\<lparr> consecutive_failures := n \<rparr>) \<noteq> [] \<longrightarrow>
      episode_start_time (s\<lparr> consecutive_failures := n \<rparr>) \<noteq> None"
    by simp
next
  fix s :: session and fc f
  assume "active_frames s \<noteq> [] \<longrightarrow> episode_start_time s \<noteq> None"
  then show "active_frames (fst (live_frame fc f s)) \<noteq> [] \<longrightarrow>
      episode_start_time (fst (live_frame fc f s)) \<noteq> None"
    unfolding live_frame_def by (rule segment_frame_started)
qed

lemma http_loop_started:
  "active_frames (fst (snd (http_loop ps fc init_session))) \<noteq> [] \<longrightarrow>
     episode_start_time (fst (snd (http_loop ps fc init_session))) \<noteq> None"
proof (rule http_loop_invariant[where P = "\<lambda>s. active_frames s \<noteq> [] \<longrightarrow> episode_start_time s \<noteq> None"])
  show "active_frames init_session \<noteq> [] \<longrightarrow> episode_start_time init_session \<noteq> None"
    by (simp add: init_session_def)
next
  fix s :: session and n
  assume "active_frames s \<noteq> [] \<longrightarrow> episode_start_time s \<noteq> None"
  then show "active_frames (s\<lparr> consecutive_failures := n \<rparr>) \<noteq> [] \<longrightarrow>
      episode_start_time (s\<lparr> consecutive_failures := n \<rparr>) \<noteq> None"
    by simp
next
  fix s :: session and fc f
  assume "active_frames s \<noteq> [] \<longrightarrow> episode_start_time s \<noteq> None"
  then show "active_frames (fst (http_frame fc f s)) \<noteq> [] \<longrightarrow>
      episode_start_time (fst (http_frame fc f s)) \<noteq> None"
    unfolding http_frame_def by (rule segment_frame_started)
next
  fix s :: session and f
  show "active_frames (activity_interrupted f s) \<noteq> [] \<longrightarrow>
      episode_start_time (activity_interrupted f s) \<noteq> None"
    by (simp add: activity_interrupted_def split: option.splits)
next
  fix s :: session and m
  assume "active_frames s \<noteq> [] \<longrightarrow> episode_start_time s \<noteq> None"
  then show "active_frames (s\<lparr> detections_summary := m \<rparr>) \<noteq> [] \<longrightarrow>
      episode_start_time (s\<lparr> detections_summary := m \<rparr>) \<noteq> None"
    by simp
qed

section \<open>An open episode and its frames\<close>

text \<open>
  Claim C5, as stated, fails. When the append of a frame fills the episode to the cap, the
  loop sends it, empties \<open>active_frames\<close> and sets \<open>episode_start_time\<close> to the time of
  that frame (\<open># Continue as new episode\<close>): an episode start time is then recorded
  while no record is held. After 120 snapshots with detections a polling session stands in
  such a state. A polling session also stands in such a state after a first snapshot with a
  detection on which \<open>_send_telegram_alert\<close> raised: the start time had been set, the
  append was not reached, and the handler of the loop swallowed the exception.
\<close>

theorem open_episode_without_frames:
  "episode_start_time (fst (snd (http_loop (replicate 120 (Fetch_ok (sample_frame 7 True))) 0
      init_session))) = Some 1007
   \<and> active_frames (fst (snd (http_loop (replicate 120 (Fetch_ok (sample_frame 7 True))) 0
      init_session))) = []
   \<and> episode_start_time (fst (snd (http_loop [Alert_raised (sample_frame 1 True)] 0
      init_session))) = Some 1001
   \<and> active_frames (fst (snd (http_loop [Alert_raised (sample_frame 1 True)] 0
      init_session))) = []"
proof -
  let ?F = "sample_frame 7 True"
  let ?A = "number_from 0 (replicate 119 ?F)"
  have "replicate 120 (Fetch_ok ?F) = replicate (Suc 119) (Fetch_ok ?F)" by simp
  also have "\<dots> = replicate 119 (Fetch_ok ?F) @ [Fetch_ok ?F]" by (rule replicate_snoc)
  finally have rep: "replicate 120 (Fetch_ok ?F) = map Fetch_ok (replicate 119 ?F @ [?F])"
    by simp
  have num: "number_from 0 (replicate 119 ?F @ [?F]) = ?A @ [(120, ?F)]"
    by (simp add: number_from_append)
  have actA: "\<forall>p \<in> set ?A. has_activity p"
    by (rule number_from_activity) (simp add: sample_frame_def)
  have actF: "has_activity (120, ?F)" by (rule sample_frame_activity)
  have lenA: "length ?A + 1 = HTTP_MAX_EPISODE_FRAMES"
    by (simp add: HTTP_MAX_EPISODE_FRAMES_def)
  have cf: "consecutive_failures init_session = 0" by (simp add: init_session_def)
  have "fst (snd (http_loop (replicate 120 (Fetch_ok ?F)) 0 init_session)) =
      fst (segment_run HTTP_SILENCE_THRESHOLD HTTP_MAX_EPISODE_FRAMES (?A @ [(120, ?F)])
        init_session)"
    by (simp only: rep http_loop_frames[OF cf] num fst_conv snd_conv)
  also have "\<dots> = init_session\<lparr> active_frames := [], detections_summary := [],
      silence_counter := 0, episode_start_time := Some (fi_time ?F), episode_count := 1 \<rparr>"
    by (rule cap_reached_run(1)[OF actA actF lenA])
  finally have cap: "episode_start_time (fst (snd (http_loop (replicate 120 (Fetch_ok ?F)) 0
        init_session))) = Some 1007
      \<and> active_frames (fst (snd (http_loop (replicate 120 (Fetch_ok ?F)) 0
        init_session))) = []"
    by (simp add: sample_frame_def)
  have raised: "episode_start_time (fst (snd (http_loop [Alert_raised (sample_frame 1 True)] 0
        init_session))) = Some 1001
      \<and> active_frames (fst (snd (http_loop [Alert_raised (sample_frame 1 True)] 0
        init_session))) = []"
    by code_simp
  from cap raised show ?thesis by blast
qed

text \<open>
  Claim C5, amended. In every state that a live or a polling session reaches, records held
  in \<open>active_frames\<close> imply a recorded episode start time. A recorded start time with no
  record held has one of two origins. Whenever a session stands in such a state after its
  reads or polls, one of them was consumed by an iteration that flushed at the cap (the
  frame carried detections and one episode of at least \<open>MAX_EPISODE_FRAMES\<close> records was
  sent), or, in a polling session only, by an iteration on a frame with detections, at a
  moment when no start time was recorded, in which a statement between the setting of the
  start time and the append raised (the per-frame emission, the alert, the copy of the
  frame) and the handler of the loop swallowed the exception; and in every state the
  session stood in from that iteration on, no record was held. A live session has no such second origin, since
  \<open>_process_stream\<close> has no handler in its loop: an exception there ends the session.
\<close>

theorem empty_episode_has_cause:
  "(active_frames (live_state rs fc) \<noteq> [] \<longrightarrow> episode_start_time (live_state rs fc) \<noteq> None)
   \<and> (active_frames (http_state ps fc') \<noteq> [] \<longrightarrow>
        episode_start_time (http_state ps fc') \<noteq> None)
   \<and> (empty_open (live_state rs fc) \<longrightarrow>
        (\<exists>pre r post. rs = pre @ r # post \<and> live_cause pre r fc
           \<and> (\<forall>k \<le> length post.
                 active_frames (live_state (pre @ r # take k post) fc) = [])))
   \<and> (empty_open (http_state ps fc') \<longrightarrow>
        (\<exists>pre p post. ps = pre @ p # post \<and> http_cause pre p fc'
           \<and> (\<forall>k \<le> length post.
                 active_frames (http_state (pre @ p # take k post) fc') = [])))"
  using live_loop_started[of rs fc] http_loop_started[of ps fc']
    live_empty_open_trace[of rs fc] http_empty_open_trace[of ps fc']
  unfolding live_state_def[symmetric] http_state_def[symmetric]
  by blast

theorem empty_episode_has_cause_witness:
  "episode_start_time (live_state [Read_ok (sample_frame 1 False), Read_ok (sample_frame 2 False),
        Read_ok (sample_frame 3 True)] 0) \<noteq> None
   \<and> episode_start_time (http_state [Fetch_ok (sample_frame 1 True)] 0) \<noteq> None
   \<and> (\<exists>pre r post. live_reads (replicate 300 (sample_frame 7 True)) = pre @ r # post
         \<and> live_cause pre r 0
         \<and> (\<forall>k \<le> length post. active_frames (live_state (pre @ r # take k post) 0) = []))
   \<and> (\<exists>pre p post. [Alert_raised (sample_frame 1 True)] = pre @ p # post
         \<and> http_cause pre p 0
         \<and> (\<forall>k \<le> length post. active_frames (http_state (pre @ p # take k post) 0) = []))"
proof -
  let ?rs = "[Read_ok (sample_frame 1 False), Read_ok (sample_frame 2 False),
        Read_ok (sample_frame 3 True)]"
  let ?ps = "[Fetch_ok (sample_frame 1 True)]"
  let ?F = "sample_frame 7 True"
  let ?A = "live_numbers 0 (replicate 299 ?F)"
  have h1: "active_frames (live_state ?rs 0) \<noteq> []"
    unfolding live_state_def by code_simp
  have h2: "active_frames (http_state ?ps 0) \<noteq> []"
    unfolding http_state_def by code_simp
  have "replicate 300 ?F = replicate (Suc 299) ?F" by simp
  also have "\<dots> = replicate 299 ?F @ [?F]" by (rule replicate_snoc)
  finally have num: "live_numbers 0 (replicate 300 ?F) = ?A @ [(900, ?F)]"
    by (simp add: live_numbers_append)
  have actA: "\<forall>p \<in> set ?A. has_activity p"
    by (rule live_numbers_activity) (simp add: sample_frame_def)
  have actF: "has_activity (900, ?F)" by (rule sample_frame_activity)
  have lenA: "length ?A + 1 = LIVE_MAX_EPISODE_FRAMES"
    by (simp add: LIVE_MAX_EPISODE_FRAMES_def)
  have cf: "consecutive_failures init_session = 0" by (simp add: init_session_def)
  have "live_state (live_reads (replicate 300 ?F)) 0 =
      fst (segment_run LIVE_SILENCE_THRESHOLD LIVE_MAX_EPISODE_FRAMES (?A @ [(900, ?F)])
        init_session)"
    unfolding live_state_def by (simp only: live_loop_reads[OF cf mod_0] num fst_conv snd_conv)
  also have "\<dots> = init_session\<lparr> active_frames := [], detections_summary := [],
      silence_counter := 0, episode_start_time := Some (fi_time ?F), episode_count := 1 \<rparr>"
    by (rule cap_reached_run(1)[OF actA actF lenA])
  finally have h3: "empty_open (live_state (live_reads (replicate 300 ?F)) 0)"
    by (simp add: empty_open_def)
  have h4: "empty_open (http_state [Alert_raised (sample_frame 1 True)] 0)"
    unfolding empty_open_def http_state_def by code_simp
  show ?thesis
    using h1 h2 h3 h4
      empty_episode_has_cause[of ?rs 0 ?ps 0]
      empty_episode_has_cause[of "live_reads (replicate 300 ?F)" 0
        "[Alert_raised (sample_frame 1 True)]" 0]
    by blast
qed

section \<open>Sending the pending episode when a live session ends\<close>

text \<open>
  Claim C1 (every opened episode is sent exactly once) against \<open>_process_stream\<close>. A live
  stream delivers three frames, the third of which is processed and carries a detection,
  and then fails thirty reads in a row. The block under \<open># Handle stream disconnect\<close>
  sends the pending episode and raises without emptying \<open>active_frames\<close>, and the
  \<open>finally\<close> block sends the same frames and summary again: the one episode that was
  opened is handed to \<open>_send_episode\<close> twice.
\<close>

theorem pending_episode_sent_twice:
  "process_stream ([Read_ok (sample_frame 1 False), Read_ok (sample_frame 2 False),
                    Read_ok (sample_frame 3 True)] @ replicate 30 Read_failed) 0
   = (3, [Emit_detection 3 3 [person_detection], Telegram_alert 3 [person_detection],
          Send_episode [mk_record 0 3 (sample_frame 3 True)] [(''person'', 1)],
          Send_episode [mk_record 0 3 (sample_frame 3 True)] [(''person'', 1)]],
      Inl Too_many_read_failures)"
  by code_simp

text \<open>
  The polling session on the corresponding input (one snapshot with a detection, then
  twenty failed fetches) sends its pending episode once: there only the \<open>finally\<close>
  block sends.
\<close>

lemma polling_session_sends_pending_once:
  "http_polling_session ([Fetch_ok (sample_frame 1 True)] @ replicate 20 Fetch_failed) 0
   = (1, [Emit_detection 1 1 [person_detection], Telegram_alert 1 [person_detection],
          Send_episode [mk_record 0 1 (sample_frame 1 True)] [(''person'', 1)]],
      Inl (Too_many_poll_failures 20))"
  by code_simp

section \<open>Facts about delivery\<close>

lemma redis_send_cases:
  "redis_send t p =
     (if lpush_raises t \<noteq> None then ([Lpush ''detection_queue'' p], lpush_raises t)
      else ([Lpush ''detection_queue'' p, Publish ''live_events'' p], publish_raises t))"
  by (simp add: redis_send_def split: option.splits)

lemma count_post_http:
  "length (filter is_http_post (fst (post_detection_http t p))) = (if endpoint_set t then 1 else 0)"
  "filter is_lpush (fst (post_detection_http t p)) = []"
  "filter is_publish (fst (post_detection_http t p)) = []"
  by (auto simp: post_detection_http_def is_http_post_def is_lpush_def is_publish_def
      split: sum.splits)

lemma count_episode_http:
  "length (filter is_http_post (fst (send_episode_http t p))) = (if endpoint_set t then 1 else 0)"
  "filter is_lpush (fst (send_episode_http t p)) = []"
  "filter is_publish (fst (send_episode_http t p)) = []"
  by (auto simp: send_episode_http_def is_http_post_def is_lpush_def is_publish_def
      split: sum.splits)

lemma post_detection_effects:
  "fst (post_detection t p) =
     (if redis_client t then
        fst (redis_send t p) @
          (if snd (redis_send t p) = Some Redis_error
           then Log ''Redis error'' # fst (post_detection_http t p) else [])
      else fst (post_detection_http t p))"
  by (auto simp: post_detection_def case_prod_beta split: option.splits prod.splits)

lemma send_episode_effects:
  "\<exists>msg. fst (send_episode t p) =
     (if redis_client t then
        fst (redis_send t p) @
          (if snd (redis_send t p) = Some Redis_error
           then Log ''Redis error, trying HTTP fallback'' # fst (send_episode_http t p)
           else [Log msg])
      else fst (send_episode_http t p))"
  by (auto simp: send_episode_def case_prod_beta split: option.splits prod.splits)

lemma redis_part_filters:
  "filter is_http_post (fst (redis_send t p)) = []"
  "length (filter is_lpush (fst (redis_send t p))) = 1"
  "length (filter is_publish (fst (redis_send t p))) \<le> 1"
  "Lpush ''detection_queue'' p \<in> set (fst (redis_send t p))"
  "lpush_raises t = None \<Longrightarrow> Publish ''live_events'' p \<in> set (fst (redis_send t p))"
  by (simp_all add: redis_send_cases is_http_post_def is_lpush_def is_publish_def)

lemma redis_part_raised:
  "snd (redis_send t p) = Some Redis_error \<Longrightarrow>
     lpush_raises t = Some Redis_error \<or> publish_raises t = Some Redis_error"
  by (simp add: redis_send_cases split: if_splits)

lemma log_filters [simp]:
  "\<not> is_http_post (Log m)" "\<not> is_lpush (Log m)" "\<not> is_publish (Log m)" "is_log (Log m)"
  by (simp_all add: is_http_post_def is_lpush_def is_publish_def is_log_def)

lemma fallback_episode:
  assumes "fallback_reached t"
  shows "\<exists>pre. send_episode t p = (pre @ fst (send_episode_http t p), snd (send_episode_http t p))
           \<and> filter is_http_post pre = []"
proof (cases "redis_client t")
  case False
  then have "send_episode t p = ([] @ fst (send_episode_http t p), snd (send_episode_http t p))"
    by (simp add: send_episode_def)
  then show ?thesis by (metis filter.simps(1))
next
  case True
  then have r: "snd (redis_send t p) = Some Redis_error"
    using assms by (auto simp: fallback_reached_def redis_send_cases)
  obtain es where es: "redis_send t p = (es, Some Redis_error)"
    using r by (cases "redis_send t p") auto
  have "filter is_http_post es = []" using redis_part_filters(1)[of t p] es by simp
  then have "send_episode t p =
      ((es @ [Log ''Redis error, trying HTTP fallback'']) @ fst (send_episode_http t p),
       snd (send_episode_http t p))
    \<and> filter is_http_post (es @ [Log ''Redis error, trying HTTP fallback'']) = []"
    using True es by (simp add: send_episode_def case_prod_beta)
  then show ?thesis by blast
qed

lemma fallback_post:
  assumes "fallback_reached t"
  shows "\<exists>pre. fst (post_detection t p) = pre @ fst (post_detection_http t p)
           \<and> filter is_http_post pre = []
           \<and> Log ''POST failed'' \<notin> set pre \<and> Log ''POST error'' \<notin> set pre"
proof (cases "redis_client t")
  case False
  then have "fst (post_detection t p) = [] @ fst (post_detection_http t p)"
    by (simp add: post_detection_def)
  then show ?thesis by force
next
  case True
  then have r: "snd (redis_send t p) = Some Redis_error"
    using assms by (auto simp: fallback_reached_def redis_send_cases)
  have "fst (post_detection t p) =
      (fst (redis_send t p) @ [Log ''Redis error'']) @ fst (post_detection_http t p)"
    using True r by (simp add: post_detection_effects)
  moreover have "filter is_http_post (fst (redis_send t p) @ [Log ''Redis error'']) = []"
    by (simp add: redis_part_filters)
  moreover have "Log ''POST failed'' \<notin> set (fst (redis_send t p) @ [Log ''Redis error''])"
    and "Log ''POST error'' \<notin> set (fst (redis_send t p) @ [Log ''Redis error''])"
    by (simp_all add: redis_send_cases)
  ultimately show ?thesis by blast
qed

lemma episode_http_result:
  assumes "endpoint_set t"
  shows "snd (send_episode_http t p) \<longleftrightarrow> post_result t = Inr 200"
    and "fst (send_episode_http t p) \<noteq> []"
    and "is_log (last (fst (send_episode_http t p)))"
    and "last (fst (send_episode_http t p)) = Log ''Episode sent successfully''
           \<longleftrightarrow> post_result t = Inr 200"
  using assms by (auto simp: send_episode_http_def split: sum.splits)

lemma post_http_logs:
  assumes "endpoint_set t"
  shows "Log ''POST failed'' \<in> set (fst (post_detection_http t p))
           \<longleftrightarrow> (\<exists>status. post_result t = Inr status \<and> status \<noteq> 200)"
    and "Log ''POST error'' \<in> set (fst (post_detection_http t p))
           \<longleftrightarrow> (\<exists>e. post_result t = Inl e \<and> is_request_exception e) \<and> mode t = ''UPLOAD''"
  using assms by (auto simp: post_detection_http_def split: sum.splits)

section \<open>Queue first, fallback second\<close>

text \<open>
  Claim C6, as stated, fails in one point: with a Redis client configured, the push and the
  publish are two consecutive statements of one \<open>try\<close> block, so a push that raises
  \<open>redis.RedisError\<close> skips the publish. Both \<open>_post_detection\<close> and \<open>_send_episode\<close>
  then go on to the HTTP fallback without having attempted the broadcast.
\<close>

theorem publish_skipped_when_push_raises:
  "redis_client queue_down
   \<and> fst (post_detection queue_down ''payload'') =
       [Lpush ''detection_queue'' ''payload'', Log ''Redis error'', Http_post ''payload'']
   \<and> fst (send_episode queue_down ''payload'') =
       [Lpush ''detection_queue'' ''payload'', Log ''Redis error, trying HTTP fallback'',
        Http_post ''payload'', Log ''Episode sent successfully'']
   \<and> Publish ''live_events'' ''payload'' \<notin> set (fst (post_detection queue_down ''payload''))
   \<and> Publish ''live_events'' ''payload'' \<notin> set (fst (send_episode queue_down ''payload''))"
  by (simp add: post_detection_def send_episode_def post_detection_http_def
      send_episode_http_def redis_send_def queue_down_def endpoint_set_def)

text \<open>
  Claim C6, amended. For every payload and for both \<open>_post_detection\<close> and
  \<open>_send_episode\<close>: with a Redis client configured, one delivery pushes the payload onto
  \<open>detection_queue\<close>, and publishes it on \<open>live_events\<close> whenever the push returns;
  a push that raises skips the publish, whatever the payload; without a Redis client
  neither is attempted. The HTTP fallback is attempted only when
  there is no Redis client or the push or the publish raised \<open>redis.RedisError\<close>. The
  queue, the topic and the fallback endpoint are each tried at most once per delivery.
\<close>

theorem queue_then_fallback:
  "(redis_client t \<longrightarrow> Lpush ''detection_queue'' p \<in> set (fst (post_detection t p))
        \<and> Lpush ''detection_queue'' p \<in> set (fst (send_episode t p)))
   \<and> (redis_client t \<and> lpush_raises t = None \<longrightarrow>
        Publish ''live_events'' p \<in> set (fst (post_detection t p))
        \<and> Publish ''live_events'' p \<in> set (fst (send_episode t p)))
   \<and> (lpush_raises t \<noteq> None \<longrightarrow>
        filter is_publish (fst (post_detection t p)) = []
        \<and> filter is_publish (fst (send_episode t p)) = [])
   \<and> (\<not> redis_client t \<longrightarrow>
        filter is_lpush (fst (post_detection t p)) = []
        \<and> filter is_publish (fst (post_detection t p)) = []
        \<and> filter is_lpush (fst (send_episode t p)) = []
        \<and> filter is_publish (fst (send_episode t p)) = [])
   \<and> (filter is_http_post (fst (post_detection t p)) \<noteq> []
        \<or> filter is_http_post (fst (send_episode t p)) \<noteq> [] \<longrightarrow>
        \<not> redis_client t \<or> lpush_raises t = Some Redis_error \<or> publish_raises t = Some Redis_error)
   \<and> length (filter is_lpush (fst (post_detection t p))) \<le> 1
   \<and> length (filter is_publish (fst (post_detection t p))) \<le> 1
   \<and> length (filter is_http_post (fst (post_detection t p))) \<le> 1
   \<and> length (filter is_lpush (fst (send_episode t p))) \<le> 1
   \<and> length (filter is_publish (fst (send_episode t p))) \<le> 1
   \<and> length (filter is_http_post (fst (send_episode t p))) \<le> 1"
proof -
  obtain msg where se: "fst (send_episode t p) =
     (if redis_client t then
        fst (redis_send t p) @
          (if snd (redis_send t p) = Some Redis_error
           then Log ''Redis error, trying HTTP fallback'' # fst (send_episode_http t p)
           else [Log msg])
      else fst (send_episode_http t p))"
    using send_episode_effects[of t p] by blast
  note pd = post_detection_effects[of t p]
  have a1: "redis_client t \<longrightarrow> Lpush ''detection_queue'' p \<in> set (fst (post_detection t p))
        \<and> Lpush ''detection_queue'' p \<in> set (fst (send_episode t p))"
    by (simp add: pd se redis_part_filters)
  have a2: "redis_client t \<and> lpush_raises t = None \<longrightarrow>
        Publish ''live_events'' p \<in> set (fst (post_detection t p))
        \<and> Publish ''live_events'' p \<in> set (fst (send_episode t p))"
    by (simp add: pd se redis_part_filters)
  have a2b: "lpush_raises t \<noteq> None \<longrightarrow>
        filter is_publish (fst (post_detection t p)) = []
        \<and> filter is_publish (fst (send_episode t p)) = []"
    by (simp add: pd se redis_send_cases count_post_http count_episode_http is_publish_def)
  have a3: "\<not> redis_client t \<longrightarrow>
        filter is_lpush (fst (post_detection t p)) = []
        \<and> filter is_publish (fst (post_detection t p)) = []
        \<and> filter is_lpush (fst (send_episode t p)) = []
        \<and> filter is_publish (fst (send_episode t p)) = []"
    by (simp add: pd se count_post_http count_episode_http)
  have a4: "filter is_http_post (fst (post_detection t p)) \<noteq> []
        \<or> filter is_http_post (fst (send_episode t p)) \<noteq> [] \<longrightarrow>
        \<not> redis_client t \<or> lpush_raises t = Some Redis_error \<or> publish_raises t = Some Redis_error"
    using redis_part_raised[of t p]
    by (auto simp: pd se redis_part_filters split: if_splits)
  have a5: "length (filter is_lpush (fst (post_detection t p))) \<le> 1"
    and a6: "length (filter is_publish (fst (post_detection t p))) \<le> 1"
    and a7: "length (filter is_http_post (fst (post_detection t p))) \<le> 1"
    using redis_part_filters(3)[of t p]
    by (simp_all add: pd redis_part_filters count_post_http)
  have a8: "length (filter is_lpush (fst (send_episode t p))) \<le> 1"
    and a9: "length (filter is_publish (fst (send_episode t p))) \<le> 1"
    and a10: "length (filter is_http_post (fst (send_episode t p))) \<le> 1"
    using redis_part_filters(3)[of t p]
    by (simp_all add: se redis_part_filters count_episode_http)
  show ?thesis
    by (intro conjI) (rule a1 a2 a2b a3 a4 a5 a6 a7 a8 a9 a10)+
qed

theorem queue_then_fallback_witness:
  "Lpush ''detection_queue'' ''payload'' \<in> set (fst (post_detection queue_up ''payload''))
   \<and> Publish ''live_events'' ''payload'' \<in> set (fst (send_episode queue_up ''payload''))
   \<and> filter is_publish (fst (post_detection queue_down ''payload'')) = []
   \<and> filter is_publish (fst (send_episode queue_down ''payload'')) = []
   \<and> filter is_lpush (fst (send_episode http_only ''payload'')) = []
   \<and> (lpush_raises queue_down = Some Redis_error \<or> publish_raises queue_down = Some Redis_error)"
proof -
  have up: "redis_client queue_up" "lpush_raises queue_up = None"
    by (simp_all add: queue_up_def)
  have no: "\<not> redis_client http_only" by (simp add: http_only_def)
  have down: "redis_client queue_down" "lpush_raises queue_down \<noteq> None"
    by (simp_all add: queue_down_def)
  have posted: "filter is_http_post (fst (send_episode queue_down ''payload'')) \<noteq> []"
    by (simp add: send_episode_def send_episode_http_def redis_send_def queue_down_def
        endpoint_set_def is_http_post_def)
  note at_up = queue_then_fallback[of queue_up "''payload''"]
  note at_http = queue_then_fallback[of http_only "''payload''"]
  note at_down = queue_then_fallback[of queue_down "''payload''"]
  have w1: "Lpush ''detection_queue'' ''payload'' \<in> set (fst (post_detection queue_up ''payload''))"
    using at_up[THEN conjunct1] up(1) by blast
  have w2: "Publish ''live_events'' ''payload'' \<in> set (fst (send_episode queue_up ''payload''))"
    using at_up[THEN conjunct2, THEN conjunct1] up by blast
  have w3: "filter is_publish (fst (post_detection queue_down ''payload'')) = []
      \<and> filter is_publish (fst (send_episode queue_down ''payload'')) = []"
    using at_down[THEN conjunct2, THEN conjunct2, THEN conjunct1] down(2) by blast
  have w4: "filter is_lpush (fst (send_episode http_only ''payload'')) = []"
    using at_http[THEN conjunct2, THEN conjunct2, THEN conjunct2, THEN conjunct1] no by blast
  have w5: "lpush_raises queue_down = Some Redis_error
      \<or> publish_raises queue_down = Some Redis_error"
    using at_down[THEN conjunct2, THEN conjunct2, THEN conjunct2, THEN conjunct2,
        THEN conjunct1] down(1) posted by blast
  show ?thesis using w1 w2 w3 w4 w5 by blast
qed

section \<open>Success on the fallback path\<close>

text \<open>
  Claim C7, as stated, fails: both senders compare the status with 200, not with the 2xx
  range. A response \<open>201 Created\<close> makes \<open>_send_episode\<close> log a failure and return
  \<open>False\<close>, and makes \<open>_post_detection\<close> log \<open>POST failed\<close>.
\<close>

theorem created_is_not_success:
  "\<not> redis_client http_created \<and> endpoint_set http_created
   \<and> post_result http_created = Inr 201
   \<and> send_episode http_created ''payload'' =
        ([Http_post ''payload'', Log ''Episode send failed''], False)
   \<and> post_detection http_created ''payload'' =
        ([Http_post ''payload'', Log ''POST failed''], None)"
  by (simp add: post_detection_def send_episode_def post_detection_http_def
      send_episode_http_def http_created_def endpoint_set_def)

text \<open>
  Claim C7, amended. On the fallback path with an endpoint configured, \<open>_send_episode\<close>
  returns \<open>True\<close> exactly when the response status is 200; every other status and every
  exception of the request makes it return \<open>False\<close>, and its last action is then a log
  line other than the success line. Exactly one request is made per delivery, by either
  sender: nothing is retried. \<open>_post_detection\<close> logs \<open>POST failed\<close> exactly for a
  status other than 200, and logs a \<open>requests.RequestException\<close> only in \<open>UPLOAD\<close>
  mode.
\<close>

theorem fallback_success_is_200:
  assumes "fallback_reached t" "endpoint_set t"
  shows "(snd (send_episode t p) \<longleftrightarrow> post_result t = Inr 200)
      \<and> length (filter is_http_post (fst (send_episode t p))) = 1
      \<and> length (filter is_http_post (fst (post_detection t p))) = 1
      \<and> is_log (last (fst (send_episode t p)))
      \<and> (last (fst (send_episode t p)) = Log ''Episode sent successfully''
            \<longleftrightarrow> post_result t = Inr 200)
      \<and> (Log ''POST failed'' \<in> set (fst (post_detection t p))
            \<longleftrightarrow> (\<exists>status. post_result t = Inr status \<and> status \<noteq> 200))
      \<and> (Log ''POST error'' \<in> set (fst (post_detection t p))
            \<longleftrightarrow> (\<exists>e. post_result t = Inl e \<and> is_request_exception e) \<and> mode t = ''UPLOAD'')"
proof -
  obtain pre where se: "send_episode t p = (pre @ fst (send_episode_http t p), snd (send_episode_http t p))"
    and pre: "filter is_http_post pre = []"
    using fallback_episode[OF assms(1), of p] by blast
  obtain pre' where pd: "fst (post_detection t p) = pre' @ fst (post_detection_http t p)"
    and pre': "filter is_http_post pre' = []" "Log ''POST failed'' \<notin> set pre'"
      "Log ''POST error'' \<notin> set pre'"
    using fallback_post[OF assms(1), of p] by blast
  note h = episode_http_result[OF assms(2), of p]
  note g = post_http_logs[OF assms(2), of p]
  have b1: "snd (send_episode t p) \<longleftrightarrow> post_result t = Inr 200" by (simp add: se h(1))
  have b2: "length (filter is_http_post (fst (send_episode t p))) = 1"
    using assms(2) by (simp add: se pre count_episode_http)
  have b3: "length (filter is_http_post (fst (post_detection t p))) = 1"
    using assms(2) by (simp add: pd pre' count_post_http)
  have b4: "is_log (last (fst (send_episode t p)))" by (simp add: se h(2,3))
  have b5: "last (fst (send_episode t p)) = Log ''Episode sent successfully''
            \<longleftrightarrow> post_result t = Inr 200"
    by (simp add: se h(2) h(4))
  have b6: "Log ''POST failed'' \<in> set (fst (post_detection t p))
            \<longleftrightarrow> (\<exists>status. post_result t = Inr status \<and> status \<noteq> 200)"
    using g(1) pre'(2) by (simp add: pd)
  have b7: "Log ''POST error'' \<in> set (fst (post_detection t p))
            \<longleftrightarrow> (\<exists>e. post_result t = Inl e \<and> is_request_exception e) \<and> mode t = ''UPLOAD''"
    using g(2) pre'(3) by (simp add: pd)
  show ?thesis using b1 b2 b3 b4 b5 b6 b7 by blast
qed

theorem fallback_success_is_200_witness:
  "snd (send_episode http_only ''payload'')
   \<and> length (filter is_http_post (fst (send_episode http_only ''payload''))) = 1
   \<and> length (filter is_http_post (fst (post_detection queue_down ''payload''))) = 1
   \<and> last (fst (send_episode queue_down ''payload'')) = Log ''Episode sent successfully''"
proof -
  have a: "fallback_reached http_only" "endpoint_set http_only" "post_result http_only = Inr 200"
    by (simp_all add: fallback_reached_def endpoint_set_def http_only_def)
  have b: "fallback_reached queue_down" "endpoint_set queue_down"
    "post_result queue_down = Inr 200"
    by (simp_all add: fallback_reached_def endpoint_set_def queue_down_def)
  show ?thesis
    using a(3) b(3)
      fallback_success_is_200[OF a(1) a(2), of "''payload''"]
      fallback_success_is_200[OF b(1) b(2), of "''payload''"]
    by blast
qed

section \<open>Facts about the alert gate\<close>

lemma alert_scan_first:
  "alert_scan send cam now dets prev =
     (case filter qualifies dets of
        [] \<Rightarrow> (prev, [])
      | d # _ \<Rightarrow> (if send (mk_alert cam now d) then (now, [(mk_alert cam now d, True)])
                  else (prev, [(mk_alert cam now d, False)])))"
  by (induction dets) (simp_all add: qualifies_def)

lemma gate_closed:
  "\<not> enabled \<or> now - prev < ALERT_COOLDOWN \<Longrightarrow>
     send_telegram_alert enabled send cam now dets prev = (prev, [])"
  by (auto simp: send_telegram_alert_def)

lemma gate_open:
  "enabled \<Longrightarrow> ALERT_COOLDOWN \<le> now - prev \<Longrightarrow>
     send_telegram_alert enabled send cam now dets prev = alert_scan send cam now dets prev"
  by (simp add: send_telegram_alert_def)

lemma filter_qualifies_ne: "\<exists>d \<in> set dets. qualifies d \<Longrightarrow> filter qualifies dets \<noteq> []"
  by (simp add: filter_empty_conv)

lemma gate_fires:
  assumes "enabled" "ALERT_COOLDOWN \<le> now - prev" "\<exists>d \<in> set dets. qualifies d" "\<forall>a. send a"
  shows "send_telegram_alert enabled send cam now dets prev =
           (now, [(mk_alert cam now (hd (filter qualifies dets)), True)])"
proof -
  obtain d ds where "filter qualifies dets = d # ds"
    using filter_qualifies_ne[OF assms(3)] by (cases "filter qualifies dets") auto
  then show ?thesis using assms by (simp add: gate_open alert_scan_first)
qed

section \<open>The alert cooldown\<close>

text \<open>
  Claim C8. One call of \<open>_send_telegram_alert\<close> calls \<open>send_alert\<close> at most once. A
  notification goes out only if the notifier is available, the batch holds a detection of
  class person with confidence at least 0.7, and at least 30 seconds have passed since
  \<open>last_alert_time\<close>. With the notifier available and every send succeeding, three
  batches that each hold such a detection, at times \<open>t\<close>, \<open>t + 10\<close> and \<open>t + 35\<close>,
  where \<open>t\<close> is at least 30 seconds after \<open>last_alert_time\<close> (for a new detector, whose
  \<open>last_alert_time\<close> is 0, any clock reading of 30 or more): the first and the third
  batch send one notification each, for the first qualifying detection of the batch, and the
  second batch sends none.
\<close>

theorem alert_gate_cooldown:
  "length (snd (send_telegram_alert enabled send cam now dets prev)) \<le> 1
   \<and> (fired (snd (send_telegram_alert enabled send cam now dets prev)) \<noteq> [] \<longrightarrow>
        enabled \<and> (\<exists>d \<in> set dets. qualifies d) \<and> ALERT_COOLDOWN \<le> now - prev)
   \<and> (enabled \<and> (\<forall>a. ok a) \<and> ALERT_COOLDOWN \<le> t - prev \<and> (\<exists>d \<in> set b1. qualifies d)
        \<and> (\<exists>d \<in> set b2. qualifies d) \<and> (\<exists>d \<in> set b3. qualifies d) \<longrightarrow>
        (case send_telegram_alert enabled ok cam t b1 prev of (p1, c1) \<Rightarrow>
         case send_telegram_alert enabled ok cam (t + 10) b2 p1 of (p2, c2) \<Rightarrow>
         case send_telegram_alert enabled ok cam (t + 35) b3 p2 of (p3, c3) \<Rightarrow>
           fired c1 = [mk_alert cam t (hd (filter qualifies b1))] \<and>
           c2 = [] \<and>
           fired c3 = [mk_alert cam (t + 35) (hd (filter qualifies b3))] \<and>
           p1 = t \<and> p2 = t \<and> p3 = t + 35))"
proof (intro conjI impI)
  show "length (snd (send_telegram_alert enabled send cam now dets prev)) \<le> 1"
    by (simp add: send_telegram_alert_def alert_scan_first split: list.splits)
next
  assume f: "fired (snd (send_telegram_alert enabled send cam now dets prev)) \<noteq> []"
  then show "enabled" by (auto simp: send_telegram_alert_def fired_def split: if_splits)
  from f show "ALERT_COOLDOWN \<le> now - prev"
    by (auto simp: send_telegram_alert_def fired_def split: if_splits)
  from f have "filter qualifies dets \<noteq> []"
    by (auto simp: send_telegram_alert_def fired_def alert_scan_first split: if_splits)
  then show "\<exists>d \<in> set dets. qualifies d" by (simp add: filter_empty_conv)
next
  assume a: "enabled \<and> (\<forall>a. ok a) \<and> ALERT_COOLDOWN \<le> t - prev \<and> (\<exists>d \<in> set b1. qualifies d)
        \<and> (\<exists>d \<in> set b2. qualifies d) \<and> (\<exists>d \<in> set b3. qualifies d)"
  have r1: "send_telegram_alert enabled ok cam t b1 prev = (t, [(mk_alert cam t (hd (filter qualifies b1)), True)])"
    using a by (intro gate_fires) simp_all
  have r2: "send_telegram_alert enabled ok cam (t + 10) b2 t = (t, [])"
    by (rule gate_closed) (simp add: ALERT_COOLDOWN_def)
  have r3: "send_telegram_alert enabled ok cam (t + 35) b3 t = (t + 35, [(mk_alert cam (t + 35) (hd (filter qualifies b3)), True)])"
    using a by (intro gate_fires) (simp_all add: ALERT_COOLDOWN_def)
  show "case send_telegram_alert enabled ok cam t b1 prev of (p1, c1) \<Rightarrow>
         case send_telegram_alert enabled ok cam (t + 10) b2 p1 of (p2, c2) \<Rightarrow>
         case send_telegram_alert enabled ok cam (t + 35) b3 p2 of (p3, c3) \<Rightarrow>
           fired c1 = [mk_alert cam t (hd (filter qualifies b1))] \<and>
           c2 = [] \<and>
           fired c3 = [mk_alert cam (t + 35) (hd (filter qualifies b3))] \<and>
           p1 = t \<and> p2 = t \<and> p3 = t + 35"
    by (simp add: r1 r2 r3 fired_def)
qed

theorem alert_gate_cooldown_witness:
  "(case send_telegram_alert True (\<lambda>a. True) ''cam1'' 1000 [person_detection] 0 of
      (p1, c1) \<Rightarrow>
    case send_telegram_alert True (\<lambda>a. True) ''cam1'' (1000 + 10) [person_detection] p1 of
      (p2, c2) \<Rightarrow>
    case send_telegram_alert True (\<lambda>a. True) ''cam1'' (1000 + 35) [person_detection] p2 of
      (p3, c3) \<Rightarrow>
      fired c1 = [mk_alert ''cam1'' 1000 (hd (filter qualifies [person_detection]))] \<and>
      c2 = [] \<and>
      fired c3 = [mk_alert ''cam1'' (1000 + 35) (hd (filter qualifies [person_detection]))] \<and>
      p1 = 1000 \<and> p2 = 1000 \<and> p3 = 1000 + 35)"
proof -
  have q: "qualifies person_detection" by code_simp
  then have ex: "\<exists>d \<in> set [person_detection]. qualifies d" by simp
  have cool: "ALERT_COOLDOWN \<le> 1000 - 0" by (simp add: ALERT_COOLDOWN_def)
  have sent: "fired (snd (send_telegram_alert True (\<lambda>a. True) ''cam1'' 1000
      [person_detection] 0)) \<noteq> []"
    using gate_fires[of True 1000 0 "[person_detection]" "\<lambda>a. True" "''cam1''"] ex cool
    by (simp add: fired_def)
  note inst = alert_gate_cooldown[of True "\<lambda>a. True" "''cam1''" 1000 "[person_detection]" 0
        "\<lambda>a. True" 1000 "[person_detection]" "[person_detection]" "[person_detection]"]
  have "ALERT_COOLDOWN \<le> 1000 - 0 \<and> (\<exists>d \<in> set [person_detection]. qualifies d)"
    using inst[THEN conjunct2, THEN conjunct1] sent by blast
  then show ?thesis
    by (intro mp[OF inst[THEN conjunct2, THEN conjunct2]]) simp
qed

section \<open>A failed alert\<close>

text \<open>
  Claim C10. \<open>last_alert_time\<close> after a call of \<open>_send_telegram_alert\<close> is the old
  value unless a call of \<open>send_alert\<close> returned, in which case it is the current time.
  With the notifier available and the cooldown over, a batch holding a qualifying detection
  for which \<open>send_alert\<close> raises makes exactly one send attempt, for the first qualifying
  detection, and leaves \<open>last_alert_time\<close> unchanged; so the next batch with a qualifying
  detection, however soon it comes, attempts a send again.
\<close>

theorem failed_alert_keeps_cooldown_open:
  "fst (send_telegram_alert enabled send cam now dets prev) =
      (if fired (snd (send_telegram_alert enabled send cam now dets prev)) = [] then prev else now)
   \<and> (enabled \<and> ALERT_COOLDOWN \<le> now - prev \<and> (\<exists>d \<in> set dets. qualifies d) \<and> (\<forall>a. \<not> send a)
        \<and> now \<le> now' \<and> (\<exists>d \<in> set dets'. qualifies d) \<longrightarrow>
        snd (send_telegram_alert enabled send cam now dets prev)
          = [(mk_alert cam now (hd (filter qualifies dets)), False)]
        \<and> fst (send_telegram_alert enabled send cam now dets prev) = prev
        \<and> snd (send_telegram_alert enabled send' cam now' dets'
                 (fst (send_telegram_alert enabled send cam now dets prev)))
            = [(mk_alert cam now' (hd (filter qualifies dets')), send' (mk_alert cam now' (hd (filter qualifies dets'))))])"
proof (intro conjI impI)
  show "fst (send_telegram_alert enabled send cam now dets prev) =
      (if fired (snd (send_telegram_alert enabled send cam now dets prev)) = [] then prev else now)"
    by (simp add: send_telegram_alert_def alert_scan_first fired_def split: list.splits)
next
  assume a: "enabled \<and> ALERT_COOLDOWN \<le> now - prev \<and> (\<exists>d \<in> set dets. qualifies d) \<and> (\<forall>a. \<not> send a)
        \<and> now \<le> now' \<and> (\<exists>d \<in> set dets'. qualifies d)"
  obtain d ds where d: "filter qualifies dets = d # ds"
    using filter_qualifies_ne[of dets] a by (cases "filter qualifies dets") auto
  obtain d' ds' where d': "filter qualifies dets' = d' # ds'"
    using filter_qualifies_ne[of dets'] a by (cases "filter qualifies dets'") auto
  have r1: "send_telegram_alert enabled send cam now dets prev = (prev, [(mk_alert cam now d, False)])"
    using a by (simp add: gate_open alert_scan_first d)
  have "ALERT_COOLDOWN \<le> now' - prev" using a by simp
  then have r2: "snd (send_telegram_alert enabled send' cam now' dets' prev) =
      [(mk_alert cam now' d', send' (mk_alert cam now' d'))]"
    using a by (simp add: gate_open alert_scan_first d')
  show "snd (send_telegram_alert enabled send cam now dets prev)
          = [(mk_alert cam now (hd (filter qualifies dets)), False)]"
    by (simp add: r1 d)
  show "fst (send_telegram_alert enabled send cam now dets prev) = prev" by (simp add: r1)
  show "snd (send_telegram_alert enabled send' cam now' dets'
                 (fst (send_telegram_alert enabled send cam now dets prev)))
            = [(mk_alert cam now' (hd (filter qualifies dets')), send' (mk_alert cam now' (hd (filter qualifies dets'))))]"
    by (simp add: r1 r2 d')
qed

theorem failed_alert_keeps_cooldown_open_witness:
  "snd (send_telegram_alert True (\<lambda>a. False) ''cam1'' 1000 [person_detection] 0)
      = [(mk_alert ''cam1'' 1000 (hd (filter qualifies [person_detection])), False)]
   \<and> fst (send_telegram_alert True (\<lambda>a. False) ''cam1'' 1000 [person_detection] 0) = 0
   \<and> snd (send_telegram_alert True (\<lambda>a. True) ''cam1'' 1001 [person_detection]
        (fst (send_telegram_alert True (\<lambda>a. False) ''cam1'' 1000 [person_detection] 0)))
      = [(mk_alert ''cam1'' 1001 (hd (filter qualifies [person_detection])), True)]"
proof -
  have q: "qualifies person_detection" by code_simp
  then have ex: "\<exists>d \<in> set [person_detection]. qualifies d" by simp
  have cool: "ALERT_COOLDOWN \<le> 1000 - 0" by (simp add: ALERT_COOLDOWN_def)
  have later: "(1000::real) \<le> 1001" by simp
  have fails: "\<forall>a. \<not> (\<lambda>a::alert. False) a" by simp
  note inst = failed_alert_keeps_cooldown_open[of True "\<lambda>a. False" "''cam1''" 1000
        "[person_detection]" 0 1001 "[person_detection]" "\<lambda>a. True"]
  show ?thesis
    by (intro mp[OF inst[THEN conjunct2]]) (use ex cool later fails in simp)
qed

section \<open>An unknown mode\<close>




end
